theory Spec2Isabelle
  imports Main "HOL-Library.Word"
begin

section \<open>Common conventions\<close>

text \<open>
  A Go \<^verbatim>\<open>byte\<close> is an 8-bit value and is modelled by \<^typ>\<open>char\<close>; a Go \<^verbatim>\<open>string\<close> is an
  immutable byte sequence and is modelled by \<^typ>\<open>string\<close>. A Go slice \<^verbatim>\<open>[]byte\<close> may be
  \<^verbatim>\<open>nil\<close>, and the code tests for that, so a slice is an optional byte list: \<open>None\<close> is
  the nil slice, \<open>Some bs\<close> a non-nil slice with contents \<open>bs\<close>. Capacities are not
  modelled: the code only ever reslices below the length. The Go type \<^verbatim>\<open>int\<close> is taken
  to be 64 bits wide, so every length and every \<^verbatim>\<open>uint32\<close> fits and is modelled by \<^typ>\<open>int\<close>
  or \<^typ>\<open>nat\<close>.
\<close>

type_synonym byte = char
type_synonym slice = "byte list option"

text \<open>A run-time panic of the Go program, as opposed to an error value it returns.\<close>

datatype panic = NilDereference | OutOfRange | ExplicitPanic string

section \<open>Package consistenthash\<close>

text \<open>\<^verbatim>\<open>type Hash func(data []byte) uint32\<close>\<close>

type_synonym Hash = "byte list \<Rightarrow> 32 word"

text \<open>
  \<^verbatim>\<open>type Map struct { hash Hash; replicas int; keys []int; hashMap map[int]string }\<close>
\<close>

record consistenthash_Map =
  hash :: Hash
  replicas :: int
  keys :: "int list"
  hashMap :: "int \<rightharpoonup> string"

text \<open>
  \<^verbatim>\<open>New\<close>: a nil \<^verbatim>\<open>hashFn\<close> is replaced by \<^verbatim>\<open>crc32.ChecksumIEEE\<close>, a function of the Go
  standard library that is passed in here as the first argument.
\<close>

definition New :: "Hash \<Rightarrow> int \<Rightarrow> Hash option \<Rightarrow> consistenthash_Map" where
  "New crc32_ChecksumIEEE replicas' hashFn =
     \<lparr>hash = (case hashFn of None \<Rightarrow> crc32_ChecksumIEEE | Some h \<Rightarrow> h),
      replicas = replicas',
      keys = [],
      hashMap = Map.empty\<rparr>"

text \<open>
  \<^verbatim>\<open>strconv.Itoa\<close>: the decimal representation of an integer. \<open>digit\<close> is only applied to
  numbers below ten.
\<close>

definition digit :: "nat \<Rightarrow> char" where
  "digit d = ''0123456789'' ! d"

fun decimal :: "nat \<Rightarrow> string" where
  "decimal n = (if n < 10 then [digit n] else decimal (n div 10) @ [digit (n mod 10)])"

declare decimal.simps [simp del]

definition Itoa :: "int \<Rightarrow> string" where
  "Itoa i = (if i < 0 then CHR ''-'' # decimal (nat (- i)) else decimal (nat i))"

text \<open>
  The body of the inner loop of \<^verbatim>\<open>Add\<close> for replica index \<open>i\<close>:
  \<^verbatim>\<open>hash := int(m.hash([]byte(strconv.Itoa(i) + key)));
  m.keys = append(m.keys, hash); m.hashMap[hash] = key\<close>
\<close>

definition addReplica :: "string \<Rightarrow> consistenthash_Map \<Rightarrow> nat \<Rightarrow> consistenthash_Map" where
  "addReplica key m i =
     (let h = uint (hash m (Itoa (int i) @ key))
      in m\<lparr>keys := keys m @ [h], hashMap := (hashMap m)(h \<mapsto> key)\<rparr>)"

text \<open>The inner loop \<^verbatim>\<open>for i := 0; i < m.replicas; i++\<close> for one peer.\<close>

definition addPeer :: "consistenthash_Map \<Rightarrow> string \<Rightarrow> consistenthash_Map" where
  "addPeer m key = foldl (addReplica key) m [0 ..< nat (replicas m)]"

text \<open>\<^verbatim>\<open>Map.Add(keys ...string)\<close>: both loops, then \<^verbatim>\<open>sort.Ints(m.keys)\<close>.\<close>

definition Add :: "string list \<Rightarrow> consistenthash_Map \<Rightarrow> consistenthash_Map" where
  "Add ks m = (let m' = foldl addPeer m ks in m'\<lparr>keys := sort (keys m')\<rparr>)"

text \<open>
  \<^verbatim>\<open>sort.Search(n, f)\<close> of the Go standard library: the binary search
  \<^verbatim>\<open>i, j := 0, n; for i < j { h := int(uint(i+j) >> 1); if !f(h) { i = h + 1 } else { j = h } }; return i\<close>
\<close>

function searchLoop :: "(nat \<Rightarrow> bool) \<Rightarrow> nat \<Rightarrow> nat \<Rightarrow> nat" where
  "searchLoop f i j =
     (if i < j then
        (let h = (i + j) div 2
         in if \<not> f h then searchLoop f (h + 1) j else searchLoop f i h)
      else i)"
  by pat_completeness auto
termination
  by (relation "measure (\<lambda>(f, i, j). j - i)") auto

declare searchLoop.simps [simp del]

definition Search :: "nat \<Rightarrow> (nat \<Rightarrow> bool) \<Rightarrow> nat" where
  "Search n f = searchLoop f 0 n"

text \<open>\<^verbatim>\<open>Map.IsEmpty\<close>\<close>

definition IsEmpty :: "consistenthash_Map \<Rightarrow> bool" where
  "IsEmpty m \<longleftrightarrow> length (keys m) = 0"

text \<open>
  \<^verbatim>\<open>Map.Get\<close>. Reading a Go map at a key that is absent gives the zero value, here the
  empty string. The index \<open>idx\<close> is below \<open>length (keys m)\<close> whenever \<open>keys m ! idx\<close>
  is read: the ring is not empty there, and \<open>Search\<close> only calls its predicate below
  \<open>n\<close>.
\<close>

definition Get :: "string \<Rightarrow> consistenthash_Map \<Rightarrow> string" where
  "Get key m =
     (if IsEmpty m then ''''
      else
        (let h = uint (hash m key);
             idx = Search (length (keys m)) (\<lambda>i. keys m ! i \<ge> h);
             idx' = (if idx = length (keys m) then 0 else idx)
         in (case hashMap m (keys m ! idx') of None \<Rightarrow> '''' | Some peer \<Rightarrow> peer)))"

text \<open>A ring as a program builds it: \<^verbatim>\<open>New\<close> followed by any number of calls of \<^verbatim>\<open>Add\<close>.\<close>

definition Adds :: "string list list \<Rightarrow> consistenthash_Map \<Rightarrow> consistenthash_Map" where
  "Adds calls m = foldl (\<lambda>m' ks. Add ks m') m calls"

text \<open>
  The position on the ring of replica \<open>i\<close> of peer \<open>p\<close>, as \<open>addReplica\<close> computes it, and
  the positions of all replicas of a peer.
\<close>

definition vnode :: "Hash \<Rightarrow> string \<Rightarrow> nat \<Rightarrow> int" where
  "vnode h p i = uint (h (Itoa (int i) @ p))"

definition vnodes :: "Hash \<Rightarrow> int \<Rightarrow> string \<Rightarrow> int set" where
  "vnodes h r p = vnode h p ` {0 ..< nat r}"

text \<open>
  A sample hash function and a sample ring, for evaluating the definitions on concrete
  inputs: the hash is the polynomial \<open>b\<^sub>0 * 31\<^sup>n\<^sup>-\<^sup>1 + \<dots> + b\<^sub>n\<^sub>-\<^sub>1\<close> of the bytes, truncated to 32
  bits; the ring has the peers \<open>a\<close> and \<open>b\<close> with one replica each.
\<close>

definition exampleHash :: Hash where
  "exampleHash bs = of_nat (foldl (\<lambda>a c. a * 31 + of_char c) 0 bs)"

definition exampleRing :: consistenthash_Map where
  "exampleRing = Adds [[''a'', ''b'']] (New exampleHash 1 None)"

section \<open>Package p2pcache: ByteView\<close>

text \<open>Error values that the functions of the package return.\<close>

datatype error =
    errors_New string  \<comment> \<open>\<^verbatim>\<open>errors.New(text)\<close>\<close>
  | io_EOF             \<comment> \<open>\<^verbatim>\<open>io.EOF\<close>\<close>
  | proto_error string \<comment> \<open>an error of \<^verbatim>\<open>proto.Marshal\<close> or \<^verbatim>\<open>proto.Unmarshal\<close>\<close>

text \<open>The bytes and the length of a slice; a nil slice has none.\<close>

definition bytes_of :: "slice \<Rightarrow> byte list" where
  "bytes_of sl = (case sl of None \<Rightarrow> [] | Some bs \<Rightarrow> bs)"

definition len :: "slice \<Rightarrow> nat" where
  "len sl = length (bytes_of sl)"

text \<open>
  The builtin \<^verbatim>\<open>copy(dst, src)\<close>: it copies \<open>min (len dst) (len src)\<close> bytes to the front of
  \<open>dst\<close> and returns that number together with the new contents of \<open>dst\<close>.
\<close>

definition copy :: "byte list \<Rightarrow> byte list \<Rightarrow> nat \<times> byte list" where
  "copy dst src = (let n = min (length dst) (length src) in (n, take n src @ drop n dst))"

text \<open>\<^verbatim>\<open>cloneBytes\<close>: \<^verbatim>\<open>c := make([]byte, len(b)); copy(c, b); return c\<close>, never nil.\<close>

definition cloneBytes :: "slice \<Rightarrow> slice" where
  "cloneBytes sl = Some (snd (copy (replicate (len sl) (CHR 0x00)) (bytes_of sl)))"

text \<open>
  \<^verbatim>\<open>type ByteView struct { b []byte; s string }\<close>: \<open>b\<close> is used if it is not nil, else \<open>s\<close>.
  The fields are called \<open>bv_b\<close> and \<open>bv_s\<close> here.
\<close>

record ByteView =
  bv_b :: slice
  bv_s :: string

text \<open>\<^verbatim>\<open>ByteView.Len\<close>\<close>

definition ByteView_Len :: "ByteView \<Rightarrow> int" where
  "ByteView_Len v = (case bv_b v of Some bs \<Rightarrow> int (length bs) | None \<Rightarrow> int (length (bv_s v)))"

text \<open>\<^verbatim>\<open>ByteView.String\<close>: the data as a string.\<close>

definition ByteView_String :: "ByteView \<Rightarrow> string" where
  "ByteView_String v = (case bv_b v of Some bs \<Rightarrow> bs | None \<Rightarrow> bv_s v)"

text \<open>\<^verbatim>\<open>ByteView.ByteSlice\<close>: a copy of the data as a byte slice.\<close>

definition ByteView_ByteSlice :: "ByteView \<Rightarrow> slice" where
  "ByteView_ByteSlice v = (case bv_b v of Some bs \<Rightarrow> cloneBytes (Some bs) | None \<Rightarrow> Some (bv_s v))"

text \<open>
  \<^verbatim>\<open>ByteView.Copy(dst)\<close>: the number of bytes copied, and the new contents of \<open>dst\<close>.
\<close>

definition ByteView_Copy :: "ByteView \<Rightarrow> byte list \<Rightarrow> nat \<times> byte list" where
  "ByteView_Copy v dst = (case bv_b v of Some bs \<Rightarrow> copy dst bs | None \<Rightarrow> copy dst (bv_s v))"

text \<open>
  \<^verbatim>\<open>ByteView.SliceFrom(from)\<close>: the slice expressions \<^verbatim>\<open>v.b[from:]\<close> and \<^verbatim>\<open>v.s[from:]\<close> panic
  when \<open>from\<close> is negative or above the length.
\<close>

definition ByteView_SliceFrom :: "ByteView \<Rightarrow> int \<Rightarrow> panic + ByteView" where
  "ByteView_SliceFrom v from =
     (case bv_b v of
        Some bs \<Rightarrow>
          if from < 0 \<or> int (length bs) < from then Inl OutOfRange
          else Inr \<lparr>bv_b = Some (drop (nat from) bs), bv_s = ''''\<rparr>
      | None \<Rightarrow>
          if from < 0 \<or> int (length (bv_s v)) < from then Inl OutOfRange
          else Inr \<lparr>bv_b = None, bv_s = drop (nat from) (bv_s v)\<rparr>)"

text \<open>
  \<^verbatim>\<open>ByteView.ReadAt(p, off)\<close>. The result is a panic, or the new contents of \<open>p\<close> with the
  two results \<open>n\<close> and \<open>err\<close> of the Go function. The second test compares the offset with
  the length of \<open>p\<close>, as the source does: \<^verbatim>\<open>if off >= int64(len(p))\<close>.
\<close>

definition ByteView_ReadAt ::
  "ByteView \<Rightarrow> byte list \<Rightarrow> int \<Rightarrow> panic + (byte list \<times> int \<times> error option)" where
  "ByteView_ReadAt v p off =
     (if off < 0 then Inr (p, 0, Some (errors_New ''byteview: invalid offset''))
      else if off \<ge> int (length p) then Inr (p, 0, Some io_EOF)
      else
        (case ByteView_SliceFrom v off of
           Inl e \<Rightarrow> Inl e
         | Inr v' \<Rightarrow>
             (let (n, p') = ByteView_Copy v' p
              in Inr (p', int n, if n < length p then Some io_EOF else None))))"

section \<open>Package p2pcache: sinks\<close>

text \<open>
  The five implementations of the interface \<^verbatim>\<open>Sink\<close>, one constructor for each struct.
  A pointer field holds \<open>None\<close> for the nil pointer, and otherwise the value that the pointer
  refers to; no two sinks share a destination in what follows. The type \<open>'m\<close> is the type of
  the values of the interface \<^verbatim>\<open>proto.Message\<close>.

  \<^item> \<^verbatim>\<open>stringSink { str *string; v ByteView }\<close>
  \<^item> \<^verbatim>\<open>byteViewSink { dst *ByteView }\<close>
  \<^item> \<^verbatim>\<open>protoSink { dst proto.Message; typ string; v ByteView }\<close>
  \<^item> \<^verbatim>\<open>allocBytesSink { dst *[]byte; v ByteView }\<close>
  \<^item> \<^verbatim>\<open>truncBytesSink { dst *[]byte; v ByteView }\<close>
\<close>

datatype 'm Sink =
    stringSink "string option" ByteView
  | byteViewSink "ByteView option"
  | protoSink 'm string ByteView
  | allocBytesSink "slice option" ByteView
  | truncBytesSink "slice option" ByteView

text \<open>The zero value of \<^verbatim>\<open>ByteView\<close>, which a struct literal leaves in a field it omits.\<close>

definition zeroByteView :: ByteView where
  "zeroByteView = \<lparr>bv_b = None, bv_s = ''''\<rparr>"

text \<open>
  The constructors of the package. \<^verbatim>\<open>ByteViewSink\<close> is the only one that looks at its
  argument: \<^verbatim>\<open>if dst == nil { panic("nil dst") }\<close>.
\<close>

definition StringSink :: "string option \<Rightarrow> 'm Sink" where
  "StringSink str = stringSink str zeroByteView"

definition ByteViewSink :: "ByteView option \<Rightarrow> panic + 'm Sink" where
  "ByteViewSink dst = (if dst = None then Inl (ExplicitPanic ''nil dst'') else Inr (byteViewSink dst))"

definition ProtoSink :: "'m \<Rightarrow> 'm Sink" where
  "ProtoSink m = protoSink m '''' zeroByteView"

definition AllocatingByteSliceSink :: "slice option \<Rightarrow> 'm Sink" where
  "AllocatingByteSliceSink dst = allocBytesSink dst zeroByteView"

definition TruncatingByteSliceSink :: "slice option \<Rightarrow> 'm Sink" where
  "TruncatingByteSliceSink dst = truncBytesSink dst zeroByteView"

text \<open>
  The functions \<^verbatim>\<open>proto.Marshal\<close> and \<^verbatim>\<open>proto.Unmarshal\<close> belong to a library outside the
  repository; the methods below take them as arguments. \<open>marshal m\<close> is the error or the
  encoding, a slice that may be nil. \<open>unmarshal b dst\<close> is the error, if any, together with
  the message that \<open>dst\<close> holds afterwards.
\<close>

type_synonym 'm Marshal = "'m \<Rightarrow> error + slice"
type_synonym 'm Unmarshal = "slice \<Rightarrow> 'm \<Rightarrow> error option \<times> 'm"

text \<open>
  A method of a sink returns a panic, or the error value of the Go method (\<open>None\<close> for nil)
  together with the sink after the call.
\<close>

type_synonym 'm SinkResult = "panic + (error option \<times> 'm Sink)"

text \<open>
  \<^verbatim>\<open>allocBytesSink.setBytesOwned\<close> and \<^verbatim>\<open>truncBytesSink.setBytesOwned\<close>, on the fields of the
  sink.
\<close>

definition allocBytesSink_setBytesOwned :: "slice \<Rightarrow> slice option \<Rightarrow> ByteView \<Rightarrow> 'm SinkResult" where
  "allocBytesSink_setBytesOwned b dst v =
     (if dst = None
      then Inr (Some (errors_New ''nil AllocatingByteSliceSink *[]byte dst''), allocBytesSink dst v)
      else Inr (None, allocBytesSink (Some (cloneBytes b)) (v\<lparr>bv_b := b, bv_s := ''''\<rparr>)))"

text \<open>
  The statements \<^verbatim>\<open>n := copy(*sk.dst, b); if n < len(*sk.dst) { *sk.dst = (*sk.dst)[:n] }\<close>
  of the truncating sink, on the slice \<open>d\<close> that the destination points to. Copying into a
  nil slice copies nothing and leaves it nil.
\<close>

definition truncate_into :: "slice \<Rightarrow> byte list \<Rightarrow> slice" where
  "truncate_into d src =
     (case d of
        None \<Rightarrow> None
      | Some ds \<Rightarrow>
          (let (n, ds') = copy ds src
           in if n < length ds' then Some (take n ds') else Some ds'))"

definition truncBytesSink_setBytesOwned :: "slice \<Rightarrow> slice option \<Rightarrow> ByteView \<Rightarrow> 'm SinkResult" where
  "truncBytesSink_setBytesOwned b dst v =
     (case dst of
        None \<Rightarrow>
          Inr (Some (errors_New ''nil TruncatingByteSliceSink *[]byte dst''), truncBytesSink dst v)
      | Some d \<Rightarrow>
          Inr (None, truncBytesSink (Some (truncate_into d (bytes_of b)))
                       (v\<lparr>bv_b := b, bv_s := ''''\<rparr>)))"

text \<open>\<^verbatim>\<open>SetString\<close>, for each implementation.\<close>

fun SetString :: "'m Unmarshal \<Rightarrow> string \<Rightarrow> 'm Sink \<Rightarrow> 'm SinkResult" where
  "SetString unmarshal str (stringSink p v) =
     (case p of
        None \<Rightarrow> Inl NilDereference
      | Some _ \<Rightarrow> Inr (None, stringSink (Some str) (v\<lparr>bv_b := None, bv_s := str\<rparr>)))"
| "SetString unmarshal str (byteViewSink dst) =
     (case dst of
        None \<Rightarrow> Inl NilDereference
      | Some _ \<Rightarrow> Inr (None, byteViewSink (Some \<lparr>bv_b = None, bv_s = str\<rparr>)))"
| "SetString unmarshal str (protoSink dst typ v) =
     (let b = Some str in
      case unmarshal b dst of
        (Some err, dst') \<Rightarrow> Inr (Some err, protoSink dst' typ v)
      | (None, dst') \<Rightarrow> Inr (None, protoSink dst' typ (v\<lparr>bv_b := b, bv_s := ''''\<rparr>)))"
| "SetString unmarshal str (allocBytesSink dst v) =
     (if dst = None
      then Inr (Some (errors_New ''nil AllocatingByteSliceSink *[]byte dst''), allocBytesSink dst v)
      else Inr (None, allocBytesSink (Some (Some str)) (v\<lparr>bv_b := None, bv_s := str\<rparr>)))"
| "SetString unmarshal str (truncBytesSink dst v) =
     (case dst of
        None \<Rightarrow>
          Inr (Some (errors_New ''nil TruncatingByteSliceSink *[]byte dst''), truncBytesSink dst v)
      | Some d \<Rightarrow>
          Inr (None, truncBytesSink (Some (truncate_into d str)) (v\<lparr>bv_b := None, bv_s := str\<rparr>)))"

text \<open>
  \<^verbatim>\<open>SetBytes\<close>, for each implementation. \<^verbatim>\<open>stringSink.SetBytes\<close> is
  \<^verbatim>\<open>sk.SetString(string(b))\<close>.
\<close>

fun SetBytes :: "'m Unmarshal \<Rightarrow> slice \<Rightarrow> 'm Sink \<Rightarrow> 'm SinkResult" where
  "SetBytes unmarshal b (stringSink p v) = SetString unmarshal (bytes_of b) (stringSink p v)"
| "SetBytes unmarshal b (byteViewSink dst) =
     (case dst of
        None \<Rightarrow> Inl NilDereference
      | Some _ \<Rightarrow> Inr (None, byteViewSink (Some \<lparr>bv_b = cloneBytes b, bv_s = ''''\<rparr>)))"
| "SetBytes unmarshal b (protoSink dst typ v) =
     (case unmarshal b dst of
        (Some err, dst') \<Rightarrow> Inr (Some err, protoSink dst' typ v)
      | (None, dst') \<Rightarrow> Inr (None, protoSink dst' typ (v\<lparr>bv_b := cloneBytes b, bv_s := ''''\<rparr>)))"
| "SetBytes unmarshal b (allocBytesSink dst v) = allocBytesSink_setBytesOwned (cloneBytes b) dst v"
| "SetBytes unmarshal b (truncBytesSink dst v) = truncBytesSink_setBytesOwned (cloneBytes b) dst v"

text \<open>
  \<^verbatim>\<open>SetProto\<close>, for each implementation. \<^verbatim>\<open>stringSink.SetProto\<close> assigns \<^verbatim>\<open>sk.v.b = b\<close> before it
  writes through the pointer, and leaves \<^verbatim>\<open>sk.v.s\<close> as it is.
\<close>

fun SetProto :: "'m Marshal \<Rightarrow> 'm Unmarshal \<Rightarrow> 'm \<Rightarrow> 'm Sink \<Rightarrow> 'm SinkResult" where
  "SetProto marshal unmarshal m (stringSink p v) =
     (case marshal m of
        Inl err \<Rightarrow> Inr (Some err, stringSink p v)
      | Inr b \<Rightarrow>
          (case p of
             None \<Rightarrow> Inl NilDereference
           | Some _ \<Rightarrow> Inr (None, stringSink (Some (bytes_of b)) (v\<lparr>bv_b := b\<rparr>))))"
| "SetProto marshal unmarshal m (byteViewSink dst) =
     (case marshal m of
        Inl err \<Rightarrow> Inr (Some err, byteViewSink dst)
      | Inr b \<Rightarrow>
          (case dst of
             None \<Rightarrow> Inl NilDereference
           | Some _ \<Rightarrow> Inr (None, byteViewSink (Some \<lparr>bv_b = b, bv_s = ''''\<rparr>))))"
| "SetProto marshal unmarshal m (protoSink dst typ v) =
     (case marshal m of
        Inl err \<Rightarrow> Inr (Some err, protoSink dst typ v)
      | Inr b \<Rightarrow>
          (case unmarshal b dst of
             (Some err, dst') \<Rightarrow> Inr (Some err, protoSink dst' typ v)
           | (None, dst') \<Rightarrow> Inr (None, protoSink dst' typ (v\<lparr>bv_b := b, bv_s := ''''\<rparr>))))"
| "SetProto marshal unmarshal m (allocBytesSink dst v) =
     (case marshal m of
        Inl err \<Rightarrow> Inr (Some err, allocBytesSink dst v)
      | Inr b \<Rightarrow> allocBytesSink_setBytesOwned b dst v)"
| "SetProto marshal unmarshal m (truncBytesSink dst v) =
     (case marshal m of
        Inl err \<Rightarrow> Inr (Some err, truncBytesSink dst v)
      | Inr b \<Rightarrow> truncBytesSink_setBytesOwned b dst v)"

text \<open>
  \<^verbatim>\<open>view\<close>, for each implementation: the mirror \<open>v\<close>, or \<^verbatim>\<open>*sk.dst\<close> for the ByteView sink.
  The error that the Go method returns with it is always nil.
\<close>

fun view :: "'m Sink \<Rightarrow> panic + (ByteView \<times> error option)" where
  "view (stringSink p v) = Inr (v, None)"
| "view (byteViewSink dst) =
     (case dst of None \<Rightarrow> Inl NilDereference | Some bv \<Rightarrow> Inr (bv, None))"
| "view (protoSink dst typ v) = Inr (v, None)"
| "view (allocBytesSink dst v) = Inr (v, None)"
| "view (truncBytesSink dst v) = Inr (v, None)"

text \<open>The destination of the two byte-slice sinks: what \<^verbatim>\<open>*sk.dst\<close> holds, if anything.\<close>

fun sliceDst :: "'m Sink \<Rightarrow> slice option" where
  "sliceDst (allocBytesSink dst v) = dst"
| "sliceDst (truncBytesSink dst v) = dst"
| "sliceDst _ = None"

text \<open>A sink whose destination pointer is not nil. The proto sink holds no pointer.\<close>

fun validDst :: "'m Sink \<Rightarrow> bool" where
  "validDst (stringSink p v) = (p \<noteq> None)"
| "validDst (byteViewSink dst) = (dst \<noteq> None)"
| "validDst (protoSink dst typ v) = True"
| "validDst (allocBytesSink dst v) = (dst \<noteq> None)"
| "validDst (truncBytesSink dst v) = (dst \<noteq> None)"

text \<open>
  The content of the view of a sink, when \<open>view\<close> returns one without an error.
\<close>

definition viewContent :: "'m Sink \<Rightarrow> string option" where
  "viewContent sk =
     (case view sk of Inr (v, None) \<Rightarrow> Some (ByteView_String v) | _ \<Rightarrow> None)"

section \<open>Package lru\<close>

text \<open>
  The cache keeps a \<^verbatim>\<open>*list.List\<close> of the package \<^verbatim>\<open>container/list\<close> and a map from keys to
  \<^verbatim>\<open>*list.Element\<close>. An element is an object on the heap that the list and the map both point
  to, so the model has an explicit heap: an element is identified by a number, the list is
  the list of its elements from front to back, the map sends a key to an element, and the
  heap gives the \<^verbatim>\<open>entry{key, value}\<close> that the \<^verbatim>\<open>Value\<close> of an element points to.
\<close>

type_synonym elem = nat

text \<open>
  \<^verbatim>\<open>type LruCache struct { MaxEntries int; OnEvicted func(key Key, value any);
  dll *list.List; cache map[any]*list.Element }\<close>. A nil function, a nil list and a nil map
  are \<open>None\<close>. The keys are the values of a type \<open>'k\<close> that can be compared, as the keys of
  a Go map must be. The callback \<open>OnEvicted\<close> acts on some state of the program outside the
  cache, of type \<open>'h\<close>; it does not call the cache.
\<close>

record ('k, 'v, 'h) LruCache =
  MaxEntries :: int
  OnEvicted :: "('k \<Rightarrow> 'v \<Rightarrow> 'h \<Rightarrow> 'h) option"
  dll :: "elem list option"
  cache :: "('k \<rightharpoonup> elem) option"

text \<open>
  What lies outside the struct: the entries of the list elements allocated so far, the
  identity of the next element to be allocated, and the state that \<open>OnEvicted\<close> acts on.
\<close>

record ('k, 'v, 'h) heap =
  entries :: "elem \<rightharpoonup> 'k \<times> 'v"
  nextElem :: elem
  outside :: 'h

type_synonym ('k, 'v, 'h) lruState = "('k, 'v, 'h) LruCache \<times> ('k, 'v, 'h) heap"

text \<open>\<^verbatim>\<open>NewLru\<close>\<close>

definition NewLru :: "int \<Rightarrow> ('k, 'v, 'h) LruCache" where
  "NewLru maxEntries =
     \<lparr>MaxEntries = maxEntries, OnEvicted = None, dll = Some [], cache = Some Map.empty\<rparr>"

text \<open>
  \<^verbatim>\<open>List.MoveToFront(e)\<close> and \<^verbatim>\<open>List.Remove(e)\<close> of \<^verbatim>\<open>container/list\<close> do nothing when \<open>e\<close> is not an
  element of the list.
\<close>

definition MoveToFront :: "elem \<Rightarrow> elem list \<Rightarrow> elem list" where
  "MoveToFront e l = (if e \<in> set l then e # remove1 e l else l)"

text \<open>The call of the callback: \<^verbatim>\<open>if lru.OnEvicted != nil { lru.OnEvicted(ent.key, ent.value) }\<close>\<close>

definition fire :: "('k, 'v, 'h) LruCache \<Rightarrow> 'k \<Rightarrow> 'v \<Rightarrow> ('k, 'v, 'h) heap \<Rightarrow> ('k, 'v, 'h) heap" where
  "fire lru k v hp =
     (case OnEvicted lru of None \<Rightarrow> hp | Some f \<Rightarrow> hp\<lparr>outside := f k v (outside hp)\<rparr>)"

text \<open>
  \<^verbatim>\<open>LruCache.removeElement\<close>. The package sets \<open>dll\<close> and \<open>cache\<close> together, both nil or
  both not nil, and only stores elements that it has allocated. The model makes every use
  of a nil list while the map is not nil, and every read of the entry of an element that
  was never allocated, a panic; the invariant \<open>lruInv\<close> below shows that no call reaches
  either.
\<close>

definition removeElement ::
  "elem \<Rightarrow> ('k, 'v, 'h) lruState \<Rightarrow> panic + ('k, 'v, 'h) lruState" where
  "removeElement e st =
     (case st of (lru, hp) \<Rightarrow>
        (case dll lru of
           None \<Rightarrow> Inl NilDereference
         | Some l \<Rightarrow>
             (case entries hp e of
                None \<Rightarrow> Inl NilDereference
              | Some (k, v) \<Rightarrow>
                  Inr (lru\<lparr>dll := Some (remove1 e l),
                           cache := map_option (\<lambda>m. m(k := None)) (cache lru)\<rparr>,
                       fire lru k v hp))))"

text \<open>\<^verbatim>\<open>LruCache.RemoveOldest\<close>: \<^verbatim>\<open>List.Back()\<close> is nil for an empty list.\<close>

definition RemoveOldest :: "('k, 'v, 'h) lruState \<Rightarrow> panic + ('k, 'v, 'h) lruState" where
  "RemoveOldest st =
     (case st of (lru, hp) \<Rightarrow>
        if cache lru = None then Inr st
        else
          (case dll lru of
             None \<Rightarrow> Inl NilDereference
           | Some l \<Rightarrow> if l = [] then Inr st else removeElement (last l) st))"

text \<open>
  \<^verbatim>\<open>LruCache.Add\<close>. \<^verbatim>\<open>PushFront\<close> allocates the element \<open>nextElem hp\<close>.
\<close>

definition Add_lru ::
  "'k \<Rightarrow> 'v \<Rightarrow> ('k, 'v, 'h) lruState \<Rightarrow> panic + ('k, 'v, 'h) lruState" where
  "Add_lru key value st =
     (case st of (lru0, hp) \<Rightarrow>
        (let lru = (if cache lru0 = None
                    then lru0\<lparr>cache := Some Map.empty, dll := Some []\<rparr> else lru0)
         in case (cache lru, dll lru) of
              (Some m, Some l) \<Rightarrow>
                (case m key of
                   Some e \<Rightarrow>
                     (case entries hp e of
                        None \<Rightarrow> Inl NilDereference
                      | Some (k, _) \<Rightarrow>
                          Inr (lru\<lparr>dll := Some (MoveToFront e l)\<rparr>,
                               hp\<lparr>entries := (entries hp)(e \<mapsto> (k, value))\<rparr>))
                 | None \<Rightarrow>
                     (let e = nextElem hp;
                          hp' = hp\<lparr>entries := (entries hp)(e \<mapsto> (key, value)),
                                   nextElem := Suc e\<rparr>;
                          lru' = lru\<lparr>dll := Some (e # l), cache := Some (m(key \<mapsto> e))\<rparr>
                      in if MaxEntries lru' \<noteq> 0 \<and> int (length (e # l)) > MaxEntries lru'
                         then RemoveOldest (lru', hp')
                         else Inr (lru', hp')))
            | _ \<Rightarrow> Inl NilDereference))"

text \<open>
  \<^verbatim>\<open>LruCache.Get\<close>: the result \<open>Some v\<close> stands for \<^verbatim>\<open>(v, true)\<close> and \<open>None\<close> for
  \<^verbatim>\<open>(nil, false)\<close>.
\<close>

definition Get_lru ::
  "'k \<Rightarrow> ('k, 'v, 'h) lruState \<Rightarrow> panic + ('v option \<times> ('k, 'v, 'h) lruState)" where
  "Get_lru key st =
     (case st of (lru, hp) \<Rightarrow>
        (case cache lru of
           None \<Rightarrow> Inr (None, st)
         | Some m \<Rightarrow>
             (case m key of
                None \<Rightarrow> Inr (None, st)
              | Some e \<Rightarrow>
                  (case dll lru of
                     None \<Rightarrow> Inl NilDereference
                   | Some l \<Rightarrow>
                       (case entries hp e of
                          None \<Rightarrow> Inl NilDereference
                        | Some (k, v) \<Rightarrow>
                            Inr (Some v, (lru\<lparr>dll := Some (MoveToFront e l)\<rparr>, hp)))))))"

text \<open>\<^verbatim>\<open>LruCache.Remove\<close>\<close>

definition Remove_lru :: "'k \<Rightarrow> ('k, 'v, 'h) lruState \<Rightarrow> panic + ('k, 'v, 'h) lruState" where
  "Remove_lru key st =
     (case st of (lru, hp) \<Rightarrow>
        (case cache lru of
           None \<Rightarrow> Inr st
         | Some m \<Rightarrow>
             (case m key of
                None \<Rightarrow> Inr st
              | Some e \<Rightarrow> removeElement e st)))"

text \<open>\<^verbatim>\<open>LruCache.Len\<close>\<close>

definition Len_lru :: "('k, 'v, 'h) lruState \<Rightarrow> panic + int" where
  "Len_lru st =
     (case st of (lru, hp) \<Rightarrow>
        if cache lru = None then Inr 0
        else (case dll lru of None \<Rightarrow> Inl NilDereference | Some l \<Rightarrow> Inr (int (length l))))"

text \<open>
  \<^verbatim>\<open>LruCache.Clear\<close>. The loop \<^verbatim>\<open>for _, elem := range lru.cache\<close> visits the keys of the map in
  an order that Go leaves open; the order is the argument \<open>order\<close> here, a list of the
  keys of the map. \<open>clearLoop\<close> is the loop, on the keys still to be visited; a key that the
  map does not have is passed over. Ranging over a nil map visits nothing. What is proved
  below about \<open>Clear\<close> holds for every list \<open>order\<close>.
\<close>

fun clearLoop ::
  "('k \<Rightarrow> 'v \<Rightarrow> 'h \<Rightarrow> 'h) \<Rightarrow> ('k \<rightharpoonup> elem) \<Rightarrow> 'k list \<Rightarrow> ('k, 'v, 'h) heap
     \<Rightarrow> panic + ('k, 'v, 'h) heap" where
  "clearLoop f m [] hp = Inr hp"
| "clearLoop f m (key # rest) hp =
     (case m key of
        None \<Rightarrow> clearLoop f m rest hp
      | Some e \<Rightarrow>
          (case entries hp e of
             None \<Rightarrow> Inl NilDereference
           | Some (k, v) \<Rightarrow> clearLoop f m rest (hp\<lparr>outside := f k v (outside hp)\<rparr>)))"

definition Clear :: "'k list \<Rightarrow> ('k, 'v, 'h) lruState \<Rightarrow> panic + ('k, 'v, 'h) lruState" where
  "Clear order st =
     (case st of (lru, hp) \<Rightarrow>
        (case (case (OnEvicted lru, cache lru) of
                 (Some f, Some m) \<Rightarrow> clearLoop f m order hp
               | _ \<Rightarrow> Inr hp) of
           Inl p \<Rightarrow> Inl p
         | Inr hp' \<Rightarrow> Inr (lru\<lparr>dll := None, cache := None\<rparr>, hp')))"

text \<open>
  The calls that a program makes on a cache, and a run of such calls one after the
  other, which stops at the first panic. \<open>Get\<close> drops the value it found.
\<close>

datatype ('k, 'v) lruCall =
    CallAdd 'k 'v
  | CallGet 'k
  | CallRemove 'k
  | CallRemoveOldest
  | CallClear "'k list"

fun runCall :: "('k, 'v) lruCall \<Rightarrow> ('k, 'v, 'h) lruState \<Rightarrow> panic + ('k, 'v, 'h) lruState" where
  "runCall (CallAdd k v) st = Add_lru k v st"
| "runCall (CallGet k) st = (case Get_lru k st of Inl p \<Rightarrow> Inl p | Inr (_, st') \<Rightarrow> Inr st')"
| "runCall (CallRemove k) st = Remove_lru k st"
| "runCall CallRemoveOldest st = RemoveOldest st"
| "runCall (CallClear order) st = Clear order st"

fun runCalls :: "('k, 'v) lruCall list \<Rightarrow> ('k, 'v, 'h) lruState \<Rightarrow> panic + ('k, 'v, 'h) lruState" where
  "runCalls [] st = Inr st"
| "runCalls (c # cs) st = (case runCall c st of Inl p \<Rightarrow> Inl p | Inr st' \<Rightarrow> runCalls cs st')"

text \<open>
  The entries of the cache from the most recently used to the least recently used, and
  the state that the package keeps: the list has no element twice, every element of the
  list was allocated and is the one that the map has for the key of its entry, and the
  map points to elements of the list only.
\<close>

definition contents :: "('k, 'v, 'h) lruState \<Rightarrow> ('k \<times> 'v) list" where
  "contents st =
     (case st of (lru, hp) \<Rightarrow>
        (case dll lru of None \<Rightarrow> [] | Some l \<Rightarrow> map (\<lambda>e. the (entries hp e)) l))"

definition linked :: "('k \<rightharpoonup> elem) \<Rightarrow> elem list \<Rightarrow> ('k, 'v, 'h) heap \<Rightarrow> bool" where
  "linked m l hp \<longleftrightarrow>
     distinct l \<and>
     (\<forall>e\<in>set l. e < nextElem hp \<and> (\<exists>k v. entries hp e = Some (k, v) \<and> m k = Some e)) \<and>
     (\<forall>k e. m k = Some e \<longrightarrow> e \<in> set l \<and> (\<exists>v. entries hp e = Some (k, v)))"

definition lruInv :: "('k, 'v, 'h) lruState \<Rightarrow> bool" where
  "lruInv st =
     (case st of (lru, hp) \<Rightarrow>
        (case cache lru of
           None \<Rightarrow> dll lru = None
         | Some m \<Rightarrow> (case dll lru of None \<Rightarrow> False | Some l \<Rightarrow> linked m l hp)))"

text \<open>The keys of the cache, in the order of the list, from the front to the back.\<close>

definition cachedKeys :: "('k, 'v, 'h) lruState \<Rightarrow> 'k list" where
  "cachedKeys st = map fst (contents st)"

text \<open>
  When a key was last used in a run of calls. A call uses a key when it is \<open>Add\<close> or \<open>Get\<close>
  with that key. \<open>lastUse cs k\<close> is the position in \<open>cs\<close>, counted from 1, of the last call
  that uses \<open>k\<close>, and 0 when no call does; \<open>lastUseFrom t\<close> counts the positions from
  \<open>t + 1\<close>. For a key that is in the cache after the run this is the time of its last
  access: the key was put in by an \<open>Add\<close>, and every \<open>Get\<close> with that key since then has
  found it.
\<close>

fun uses :: "('k, 'v) lruCall \<Rightarrow> 'k \<Rightarrow> bool" where
  "uses (CallAdd k v) k' = (k = k')"
| "uses (CallGet k) k' = (k = k')"
| "uses (CallRemove k) k' = False"
| "uses CallRemoveOldest k' = False"
| "uses (CallClear order) k' = False"

fun lastUseFrom :: "nat \<Rightarrow> ('k, 'v) lruCall list \<Rightarrow> 'k \<Rightarrow> nat" where
  "lastUseFrom t [] k = 0"
| "lastUseFrom t (c # cs) k =
     (if lastUseFrom (Suc t) cs k \<noteq> 0 then lastUseFrom (Suc t) cs k
      else if uses c k then Suc t else 0)"

definition lastUse :: "('k, 'v) lruCall list \<Rightarrow> 'k \<Rightarrow> nat" where
  "lastUse cs k = lastUseFrom 0 cs k"

section \<open>The hash ring\<close>

text \<open>
  C9. On a ring to which no peer has been added, and more generally on every ring for
  which \<open>IsEmpty\<close> holds, \<open>Get\<close> returns the empty string for every key. A new ring is
  empty, and it stays empty when \<open>Add\<close> is called without peers.
\<close>

theorem Get_empty_ring:
  "IsEmpty (New crc r hf) \<and> IsEmpty (Add [] (New crc r hf)) \<and>
   (\<forall>m. IsEmpty m \<longrightarrow> Get key m = '''')"
  by (simp add: IsEmpty_def New_def Add_def Get_def)

theorem Get_empty_ring_witness:
  "IsEmpty (New (\<lambda>_. 0) 3 None) \<and> Get ''k'' (New (\<lambda>_. 0) 3 None) = ''''"
  using Get_empty_ring [of "\<lambda>_. 0" 3 None "''k''"] by simp

subsection \<open>Binary search and the fields of a ring\<close>


lemma searchLoop_least:
  assumes "i \<le> j" "j \<le> n"
    and "\<forall>a b. a \<le> b \<and> b < n \<and> f a \<longrightarrow> f b"
    and "\<forall>k<i. \<not> f k"
    and "\<forall>k. j \<le> k \<and> k < n \<longrightarrow> f k"
  shows "i \<le> searchLoop f i j \<and> searchLoop f i j \<le> j \<and>
         (\<forall>k < searchLoop f i j. \<not> f k) \<and>
         (\<forall>k. searchLoop f i j \<le> k \<and> k < n \<longrightarrow> f k)"
  using assms
proof (induction f i j rule: searchLoop.induct)
  case (1 f i j)
  show ?case
  proof (cases "i < j")
    case False
    with "1.prems" show ?thesis by (simp add: searchLoop.simps)
  next
    case True
    define h where "h = (i + j) div 2"
    have hb: "i \<le> h" "h < j" using True by (simp_all add: h_def)
    show ?thesis
    proof (cases "f h")
      case fh: True
      have eq: "searchLoop f i j = searchLoop f i h"
        using True fh by (subst searchLoop.simps) (simp add: h_def Let_def)
      have upper: "\<forall>k. h \<le> k \<and> k < n \<longrightarrow> f k"
        using "1.prems"(3) fh by blast
      have "i \<le> searchLoop f i h \<and> searchLoop f i h \<le> h \<and>
         (\<forall>k < searchLoop f i h. \<not> f k) \<and>
         (\<forall>k. searchLoop f i h \<le> k \<and> k < n \<longrightarrow> f k)"
        using "1.IH"(2) [OF True h_def _ hb(1) _ "1.prems"(3,4) upper] fh hb "1.prems"(2)
        by simp
      then show ?thesis using eq hb by auto
    next
      case nfh: False
      have eq: "searchLoop f i j = searchLoop f (h + 1) j"
        using True nfh by (subst searchLoop.simps) (simp add: h_def Let_def)
      have lower: "\<forall>k<h + 1. \<not> f k"
      proof (intro allI impI)
        fix k assume "k < h + 1"
        then have "k \<le> h" by simp
        moreover have "h < n" using hb "1.prems"(2) by simp
        ultimately show "\<not> f k" using "1.prems"(3) nfh by blast
      qed
      have "h + 1 \<le> searchLoop f (h + 1) j \<and> searchLoop f (h + 1) j \<le> j \<and>
         (\<forall>k < searchLoop f (h + 1) j. \<not> f k) \<and>
         (\<forall>k. searchLoop f (h + 1) j \<le> k \<and> k < n \<longrightarrow> f k)"
        using "1.IH"(1) [OF True h_def _ _ "1.prems"(2,3) lower "1.prems"(5)] nfh hb
        by simp
      then show ?thesis using eq hb by auto
    qed
  qed
qed

lemma addReplica_fields:
  "hash (addReplica p m i) = hash m"
  "replicas (addReplica p m i) = replicas m"
  "keys (addReplica p m i) = keys m @ [vnode (hash m) p i]"
  "hashMap (addReplica p m i) = (hashMap m)(vnode (hash m) p i \<mapsto> p)"
  by (simp_all add: addReplica_def vnode_def Let_def)

lemma foldl_addReplica:
  "hash (foldl (addReplica p) m js) = hash m \<and>
   replicas (foldl (addReplica p) m js) = replicas m \<and>
   keys (foldl (addReplica p) m js) = keys m @ map (vnode (hash m) p) js \<and>
   hashMap (foldl (addReplica p) m js) =
     (\<lambda>k. if k \<in> vnode (hash m) p ` set js then Some p else hashMap m k)"
proof (induction js rule: rev_induct)
  case Nil
  show ?case by simp
next
  case (snoc j js)
  let ?m' = "foldl (addReplica p) m js"
  have h: "hash ?m' = hash m" and r: "replicas ?m' = replicas m"
    and k: "keys ?m' = keys m @ map (vnode (hash m) p) js"
    and hm: "hashMap ?m' =
      (\<lambda>k. if k \<in> vnode (hash m) p ` set js then Some p else hashMap m k)"
    using snoc by simp_all
  have "hashMap (addReplica p ?m' j) =
      (\<lambda>k. if k \<in> vnode (hash m) p ` set (js @ [j]) then Some p else hashMap m k)"
    unfolding addReplica_fields h hm by (rule ext) auto
  then show ?case by (simp add: addReplica_fields h r k)
qed

lemma addPeer_fields:
  "hash (addPeer m p) = hash m"
  "replicas (addPeer m p) = replicas m"
  "keys (addPeer m p) = keys m @ map (vnode (hash m) p) [0 ..< nat (replicas m)]"
  "hashMap (addPeer m p) =
     (\<lambda>k. if k \<in> vnodes (hash m) (replicas m) p then Some p else hashMap m k)"
  using foldl_addReplica [of p m "[0 ..< nat (replicas m)]"]
  by (simp_all add: addPeer_def vnodes_def)

lemma foldl_addPeer:
  "hash (foldl addPeer m ps) = hash m \<and>
   replicas (foldl addPeer m ps) = replicas m \<and>
   set (keys (foldl addPeer m ps)) =
     set (keys m) \<union> (\<Union>p \<in> set ps. vnodes (hash m) (replicas m) p) \<and>
   dom (hashMap (foldl addPeer m ps)) =
     dom (hashMap m) \<union> (\<Union>p \<in> set ps. vnodes (hash m) (replicas m) p) \<and>
   (\<forall>k q. hashMap (foldl addPeer m ps) k = Some q \<longrightarrow>
      hashMap m k = Some q \<or> (q \<in> set ps \<and> k \<in> vnodes (hash m) (replicas m) q))"
proof (induction ps rule: rev_induct)
  case Nil
  show ?case by simp
next
  case (snoc p ps)
  have "set (keys (foldl addPeer m (ps @ [p]))) =
     set (keys m) \<union> (\<Union>p \<in> set (ps @ [p]). vnodes (hash m) (replicas m) p)"
    using snoc by (auto simp: addPeer_fields vnodes_def)
  moreover have "dom (hashMap (foldl addPeer m (ps @ [p]))) =
     dom (hashMap m) \<union> (\<Union>p \<in> set (ps @ [p]). vnodes (hash m) (replicas m) p)"
    using snoc by (auto simp: addPeer_fields dom_def split: if_splits)
  moreover have "\<forall>k q. hashMap (foldl addPeer m (ps @ [p])) k = Some q \<longrightarrow>
      hashMap m k = Some q \<or> (q \<in> set (ps @ [p]) \<and> k \<in> vnodes (hash m) (replicas m) q)"
    using snoc by (auto simp: addPeer_fields split: if_splits)
  ultimately show ?case using snoc by (simp add: addPeer_fields)
qed

lemma Add_fields:
  "hash (Add ps m) = hash m"
  "replicas (Add ps m) = replicas m"
  "sorted (keys (Add ps m))"
  "set (keys (Add ps m)) = set (keys m) \<union> (\<Union>p \<in> set ps. vnodes (hash m) (replicas m) p)"
  "dom (hashMap (Add ps m)) = dom (hashMap m) \<union> (\<Union>p \<in> set ps. vnodes (hash m) (replicas m) p)"
  "hashMap (Add ps m) k = Some q \<Longrightarrow>
      hashMap m k = Some q \<or> (q \<in> set ps \<and> k \<in> vnodes (hash m) (replicas m) q)"
  using foldl_addPeer [of m ps] by (simp_all add: Add_def Let_def)

lemma Adds_fields:
  "hash (Adds calls m) = hash m \<and>
   replicas (Adds calls m) = replicas m \<and>
   (sorted (keys m) \<longrightarrow> sorted (keys (Adds calls m))) \<and>
   set (keys (Adds calls m)) =
     set (keys m) \<union> (\<Union>p \<in> set (concat calls). vnodes (hash m) (replicas m) p) \<and>
   dom (hashMap (Adds calls m)) =
     dom (hashMap m) \<union> (\<Union>p \<in> set (concat calls). vnodes (hash m) (replicas m) p) \<and>
   (\<forall>k q. hashMap (Adds calls m) k = Some q \<longrightarrow>
      hashMap m k = Some q \<or>
      (q \<in> set (concat calls) \<and> k \<in> vnodes (hash m) (replicas m) q))"
proof (induction calls rule: rev_induct)
  case Nil
  show ?case by (simp add: Adds_def)
next
  case (snoc ps calls)
  have step: "Adds (calls @ [ps]) m = Add ps (Adds calls m)"
    by (simp add: Adds_def)
  have "\<forall>k q. hashMap (Adds (calls @ [ps]) m) k = Some q \<longrightarrow>
      hashMap m k = Some q \<or>
      (q \<in> set (concat (calls @ [ps])) \<and> k \<in> vnodes (hash m) (replicas m) q)"
  proof (intro allI impI)
    fix k q assume "hashMap (Adds (calls @ [ps]) m) k = Some q"
    then have "hashMap (Adds calls m) k = Some q \<or>
         (q \<in> set ps \<and> k \<in> vnodes (hash m) (replicas m) q)"
      using Add_fields(6) [of ps "Adds calls m" k q] snoc by (simp add: step)
    then show "hashMap m k = Some q \<or>
      (q \<in> set (concat (calls @ [ps])) \<and> k \<in> vnodes (hash m) (replicas m) q)"
      using snoc by auto
  qed
  moreover have "set (keys (Adds (calls @ [ps]) m)) =
     set (keys m) \<union> (\<Union>p \<in> set (concat (calls @ [ps])). vnodes (hash m) (replicas m) p)"
    using snoc by (auto simp: step Add_fields)
  moreover have "dom (hashMap (Adds (calls @ [ps]) m)) =
     dom (hashMap m) \<union> (\<Union>p \<in> set (concat (calls @ [ps])). vnodes (hash m) (replicas m) p)"
    using snoc by (simp add: step Add_fields Un_assoc)
  ultimately show ?case using snoc by (simp add: step Add_fields)
qed

lemma sorted_Min_nth0:
  assumes "sorted (ks :: int list)" "ks \<noteq> []"
  shows "Min (set ks) = ks ! 0"
proof (rule Min_eqI)
  show "finite (set ks)" by simp
  show "ks ! 0 \<in> set ks" using assms(2) by simp
  fix y assume "y \<in> set ks"
  then obtain k where "k < length ks" "y = ks ! k" by (auto simp: in_set_conv_nth)
  then show "ks ! 0 \<le> y" using assms(1) by (simp add: sorted_nth_mono)
qed

lemma Search_sorted:
  fixes h :: int
  assumes "sorted (ks :: int list)"
  defines "r \<equiv> Search (length ks) (\<lambda>i. h \<le> ks ! i)"
  shows "r \<le> length ks" "\<forall>k<r. ks ! k < h" "\<forall>k. r \<le> k \<and> k < length ks \<longrightarrow> h \<le> ks ! k"
proof -
  have mono: "\<forall>a b. a \<le> b \<and> b < length ks \<and> h \<le> ks ! a \<longrightarrow> h \<le> ks ! b"
  proof (intro allI impI)
    fix a b assume "a \<le> b \<and> b < length ks \<and> h \<le> ks ! a"
    then have "ks ! a \<le> ks ! b" "h \<le> ks ! a" using assms(1) by (simp_all add: sorted_nth_mono)
    then show "h \<le> ks ! b" by simp
  qed
  have "0 \<le> searchLoop (\<lambda>i. h \<le> ks ! i) 0 (length ks) \<and>
        searchLoop (\<lambda>i. h \<le> ks ! i) 0 (length ks) \<le> length ks \<and>
        (\<forall>k < searchLoop (\<lambda>i. h \<le> ks ! i) 0 (length ks). \<not> h \<le> ks ! k) \<and>
        (\<forall>k. searchLoop (\<lambda>i. h \<le> ks ! i) 0 (length ks) \<le> k \<and> k < length ks \<longrightarrow> h \<le> ks ! k)"
    by (rule searchLoop_least [OF _ _ mono]) simp_all
  then show "r \<le> length ks" "\<forall>k<r. ks ! k < h"
    "\<forall>k. r \<le> k \<and> k < length ks \<longrightarrow> h \<le> ks ! k"
    by (auto simp: r_def Search_def not_le)
qed

lemma Get_sorted:
  fixes key :: string
  assumes "sorted (keys m)" "keys m \<noteq> []"
  defines "h \<equiv> uint (hash m key)"
  defines "lookup \<equiv> (\<lambda>k. case hashMap m k of None \<Rightarrow> '''' | Some peer \<Rightarrow> peer)"
  shows "(\<exists>k\<in>set (keys m). h \<le> k) \<Longrightarrow> Get key m = lookup (Min {k \<in> set (keys m). h \<le> k})"
    and "(\<forall>k\<in>set (keys m). k < h) \<Longrightarrow> Get key m = lookup (Min (set (keys m)))"
proof -
  let ?ks = "keys m"
  define r where "r = Search (length ?ks) (\<lambda>i. h \<le> ?ks ! i)"
  note S = Search_sorted [OF assms(1), of h, folded r_def]
  have G: "Get key m = lookup (?ks ! (if r = length ?ks then 0 else r))"
    using assms(2) by (simp add: Get_def IsEmpty_def Let_def h_def r_def lookup_def)
  {
    assume "\<exists>k\<in>set ?ks. h \<le> k"
    then obtain j where j: "j < length ?ks" "h \<le> ?ks ! j" by (auto simp: in_set_conv_nth)
    have rlt: "r < length ?ks"
    proof (rule ccontr)
      assume "\<not> r < length ?ks"
      then have "r = length ?ks" using S(1) by simp
      then show False using S(2) j by auto
    qed
    have "Min {k \<in> set ?ks. h \<le> k} = ?ks ! r"
    proof (rule Min_eqI)
      show "finite {k \<in> set ?ks. h \<le> k}" by simp
      show "?ks ! r \<in> {k \<in> set ?ks. h \<le> k}" using rlt S(3) by simp
      fix y assume "y \<in> {k \<in> set ?ks. h \<le> k}"
      then obtain k where k: "k < length ?ks" "y = ?ks ! k" "h \<le> ?ks ! k"
        by (auto simp: in_set_conv_nth)
      have "r \<le> k" using S(2) k by (meson not_le)
      then show "?ks ! r \<le> y" using k assms(1) by (simp add: sorted_nth_mono)
    qed
    then show "Get key m = lookup (Min {k \<in> set ?ks. h \<le> k})" using G rlt by simp
  }
  {
    assume a: "\<forall>k\<in>set ?ks. k < h"
    have "r = length ?ks"
    proof (rule ccontr)
      assume "r \<noteq> length ?ks"
      then have "r < length ?ks" using S(1) by simp
      then have "h \<le> ?ks ! r" "?ks ! r \<in> set ?ks" using S(3) by simp_all
      then show False using a by fastforce
    qed
    then show "Get key m = lookup (Min (set ?ks))"
      using G sorted_Min_nth0 [OF assms(1,2)] by simp
  }
qed

lemma New_fields:
  "keys (New crc r hf) = []" "hashMap (New crc r hf) = Map.empty"
  "replicas (New crc r hf) = r"
  "hash (New crc r hf) = (case hf of None \<Rightarrow> crc | Some h \<Rightarrow> h)"
  by (simp_all add: New_def)

lemma ring_built:
  assumes "m = Adds calls (New crc r hf)"
  shows "sorted (keys m)" "set (keys m) = dom (hashMap m)"
    "hash m = hash (New crc r hf)"
    "set (keys m) = (\<Union>p \<in> set (concat calls). vnodes (hash (New crc r hf)) r p)"
    "hashMap m k = Some q \<Longrightarrow>
       q \<in> set (concat calls) \<and> k \<in> vnodes (hash (New crc r hf)) r q"
  using Adds_fields [of calls "New crc r hf"] assms by (simp_all add: New_fields)

text \<open>
  C1. On a ring built by \<open>New\<close> and calls of \<open>Add\<close> that is not empty, \<open>Get\<close> returns the
  peer stored in \<open>hashMap\<close> at the smallest ring position that is at least the hash of the
  key; when the hash of the key is above every ring position, it returns the peer stored
  at the smallest ring position.
\<close>

theorem Get_ring_successor:
  assumes "m = Adds calls (New crc r hf)" and "\<not> IsEmpty m"
  shows "((\<exists>k\<in>set (keys m). uint (hash m key) \<le> k) \<longrightarrow>
           hashMap m (Min {k \<in> set (keys m). uint (hash m key) \<le> k}) = Some (Get key m)) \<and>
         ((\<forall>k\<in>set (keys m). k < uint (hash m key)) \<longrightarrow>
           hashMap m (Min (set (keys m))) = Some (Get key m))"
proof (intro conjI impI)
  note B = ring_built [OF assms(1)]
  have ne: "keys m \<noteq> []" using assms(2) by (simp add: IsEmpty_def)
  {
    assume a: "\<exists>k\<in>set (keys m). uint (hash m key) \<le> k"
    let ?S = "{k \<in> set (keys m). uint (hash m key) \<le> k}"
    have "Min ?S \<in> ?S" using a by (intro Min_in) auto
    then have "Min ?S \<in> dom (hashMap m)" using B(2) by auto
    then show "hashMap m (Min ?S) = Some (Get key m)"
      using Get_sorted(1) [OF B(1) ne a] by (auto simp: dom_def)
  }
  {
    assume a: "\<forall>k\<in>set (keys m). k < uint (hash m key)"
    have "Min (set (keys m)) \<in> set (keys m)" using ne by (intro Min_in) auto
    then have "Min (set (keys m)) \<in> dom (hashMap m)" using B(2) by auto
    then show "hashMap m (Min (set (keys m))) = Some (Get key m)"
      using Get_sorted(2) [OF B(1) ne a] by (auto simp: dom_def)
  }
qed

lemma Itoa_small: "Itoa 0 = ''0''" "Itoa 1 = ''1''" "Itoa 10 = ''10''"
  by (simp_all add: Itoa_def decimal.simps digit_def)

lemma exampleRing_fields:
  "keys exampleRing = [1585, 1586]"
  "hash exampleRing = exampleHash"
  "hashMap exampleRing 1585 = Some ''a''"
  "uint (exampleHash ''!'') = 33"
  "uint (exampleHash ''22'') = 1600"
  by (simp_all add: exampleRing_def Adds_def Add_def addPeer_def addReplica_def New_def
      Itoa_small exampleHash_def)

theorem Get_ring_successor_witness:
  "\<not> IsEmpty exampleRing \<and>
   (\<exists>k\<in>set (keys exampleRing). uint (hash exampleRing ''!'') \<le> k) \<and>
   hashMap exampleRing (Min {k \<in> set (keys exampleRing). uint (hash exampleRing ''!'') \<le> k})
     = Some (Get ''!'' exampleRing) \<and>
   \<not> (\<exists>k\<in>set (keys exampleRing). uint (hash exampleRing ''22'') \<le> k) \<and>
   hashMap exampleRing (Min (set (keys exampleRing))) = Some (Get ''22'' exampleRing)"
proof -
  have ne: "\<not> IsEmpty exampleRing" by (simp add: IsEmpty_def exampleRing_fields)
  have above: "\<exists>k\<in>set (keys exampleRing). uint (hash exampleRing ''!'') \<le> k"
    by (simp add: exampleRing_fields)
  have below: "\<forall>k\<in>set (keys exampleRing). k < uint (hash exampleRing ''22'')"
    by (simp add: exampleRing_fields)
  show ?thesis
    using Get_ring_successor [OF exampleRing_def ne, of "''!''"]
      Get_ring_successor [OF exampleRing_def ne, of "''22''"] ne above below
    by (simp add: not_le)
qed

lemma hashMap_built:
  assumes cf: "\<forall>p\<in>set (concat calls). \<forall>q\<in>set (concat calls). p \<noteq> q \<longrightarrow>
           (\<forall>i<nat r. \<forall>j<nat r. vnode (hash (New crc r hf)) p i \<noteq> vnode (hash (New crc r hf)) q j)"
  shows "hashMap (Adds calls (New crc r hf)) k = Some p \<longleftrightarrow>
         p \<in> set (concat calls) \<and> k \<in> vnodes (hash (New crc r hf)) r p"
proof
  assume "hashMap (Adds calls (New crc r hf)) k = Some p"
  then show "p \<in> set (concat calls) \<and> k \<in> vnodes (hash (New crc r hf)) r p"
    by (rule ring_built(5) [OF refl])
next
  let ?m = "Adds calls (New crc r hf)"
  let ?h = "hash (New crc r hf)"
  assume a: "p \<in> set (concat calls) \<and> k \<in> vnodes ?h r p"
  then have "k \<in> (\<Union>p \<in> set (concat calls). vnodes ?h r p)" by blast
  then have "k \<in> dom (hashMap ?m)"
    by (simp only: ring_built(2) [OF refl, symmetric] ring_built(4) [OF refl])
  then obtain q where q: "hashMap ?m k = Some q" by auto
  then have q': "q \<in> set (concat calls)" "k \<in> vnodes ?h r q"
    using ring_built(5) [OF refl q] by simp_all
  have "q = p"
  proof (rule ccontr)
    assume ne: "q \<noteq> p"
    obtain i where i: "i < nat r" "k = vnode ?h p i" using a by (auto simp: vnodes_def)
    obtain j where j: "j < nat r" "k = vnode ?h q j" using q' by (auto simp: vnodes_def)
    have "vnode ?h p i \<noteq> vnode ?h q j"
      using cf [rule_format, of p q i j] a q'(1) ne i(1) j(1) by simp
    then show False using i(2) j(2) by simp
  qed
  then show "hashMap ?m k = Some p" using q by simp
qed

lemma Get_depends:
  assumes "sorted (keys a)" "sorted (keys b)" "set (keys a) = set (keys b)"
    "hashMap a = hashMap b" "hash a = hash b"
  shows "Get key a = Get key b"
proof (cases "keys a = []")
  case True
  then have "keys b = []" using assms(3) by simp
  with True show ?thesis by (simp add: Get_def IsEmpty_def)
next
  case False
  then have nb: "keys b \<noteq> []" using assms(3) by auto
  show ?thesis
  proof (cases "\<exists>k\<in>set (keys a). uint (hash a key) \<le> k")
    case True
    then have "\<exists>k\<in>set (keys b). uint (hash b key) \<le> k" using assms(3,5) by simp
    from Get_sorted(1) [OF assms(1) False True] Get_sorted(1) [OF assms(2) nb this]
    show ?thesis using assms(3,4,5) by simp
  next
    case F: False
    then have A: "\<forall>k\<in>set (keys a). k < uint (hash a key)" by auto
    then have "\<forall>k\<in>set (keys b). k < uint (hash b key)" using assms(3,5) by simp
    from Get_sorted(2) [OF assms(1) False A] Get_sorted(2) [OF assms(2) nb this]
    show ?thesis using assms(3,4,5) by simp
  qed
qed

text \<open>
  C3, as the code has it. Two rings built with the same replica count and hash function
  from the same set of peers, in any order and split over any calls of \<open>Add\<close>, answer
  every \<open>Get\<close> alike, provided no two different peers of the set have replicas at the same
  ring position. (Where two peers collide, \<open>hashMap\<close> keeps the peer added last.)
\<close>

theorem Get_deterministic:
  assumes same: "set (concat callsA) = set (concat callsB)"
    and cf: "\<forall>p\<in>set (concat callsA). \<forall>q\<in>set (concat callsA). p \<noteq> q \<longrightarrow>
           (\<forall>i<nat r. \<forall>j<nat r.
              vnode (hash (New crc r hf)) p i \<noteq> vnode (hash (New crc r hf)) q j)"
  shows "Get key (Adds callsA (New crc r hf)) = Get key (Adds callsB (New crc r hf))"
proof (rule Get_depends)
  let ?a = "Adds callsA (New crc r hf)" and ?b = "Adds callsB (New crc r hf)"
  show "sorted (keys ?a)" "sorted (keys ?b)" by (rule ring_built(1) [OF refl])+
  show keys_eq: "set (keys ?a) = set (keys ?b)"
    by (simp only: ring_built(4) [OF refl] same)
  show "hash ?a = hash ?b"
    by (simp only: ring_built(3) [OF refl])
  have cf': "\<forall>p\<in>set (concat callsB). \<forall>q\<in>set (concat callsB). p \<noteq> q \<longrightarrow>
           (\<forall>i<nat r. \<forall>j<nat r.
              vnode (hash (New crc r hf)) p i \<noteq> vnode (hash (New crc r hf)) q j)"
    using cf unfolding same .
  show "hashMap ?a = hashMap ?b"
  proof (rule ext)
    fix k
    show "hashMap ?a k = hashMap ?b k"
    proof (cases "hashMap ?a k")
      case None
      then have "k \<notin> dom (hashMap ?a)" by auto
      moreover have "dom (hashMap ?a) = dom (hashMap ?b)"
        using keys_eq ring_built(2) [of ?a callsA crc r hf] ring_built(2) [of ?b callsB crc r hf]
        by simp
      ultimately have "k \<notin> dom (hashMap ?b)" by simp
      then have "hashMap ?b k = None" by (simp add: domIff)
      with None show ?thesis by simp
    next
      case (Some p)
      then have "p \<in> set (concat callsA) \<and> k \<in> vnodes (hash (New crc r hf)) r p"
        by (simp only: hashMap_built [OF cf])
      then have "hashMap ?b k = Some p"
        unfolding same by (simp only: hashMap_built [OF cf'])
      with Some show ?thesis by simp
    qed
  qed
qed

theorem Get_deterministic_witness:
  "set (concat [[''a'', ''b'']]) = set (concat [[''b''], [''a'', ''b'']]) \<and>
   Get ''22'' (Adds [[''a'', ''b'']] (New exampleHash 1 None)) =
   Get ''22'' (Adds [[''b''], [''a'', ''b'']] (New exampleHash 1 None))"
proof -
  have same: "set (concat [[''a'', ''b'']]) = set (concat [[''b''], [''a'', ''b'']])" by auto
  have vn: "vnode exampleHash ''a'' 0 = 1585" "vnode exampleHash ''b'' 0 = 1586"
    by (simp_all add: vnode_def exampleHash_def Itoa_small)
  have cf: "\<forall>p\<in>set (concat [[''a'', ''b'']]). \<forall>q\<in>set (concat [[''a'', ''b'']]). p \<noteq> q \<longrightarrow>
           (\<forall>i<nat 1. \<forall>j<nat 1.
              vnode (hash (New exampleHash 1 None)) p i \<noteq> vnode (hash (New exampleHash 1 None)) q j)"
    by (simp add: New_fields vn)
  show ?thesis using Get_deterministic [OF same cf] same by simp
qed

subsection \<open>Two peers at one ring position\<close>

lemma Get_at_vnode:
  assumes "m = Adds calls (New crc r hf)"
    and "uint (hash m key) \<in> set (keys m)"
  shows "hashMap m (uint (hash m key)) = Some (Get key m)"
proof -
  note B = ring_built [OF assms(1)]
  let ?t = "uint (hash m key)"
  have ne: "keys m \<noteq> []" using assms(2) by auto
  have ex: "\<exists>k\<in>set (keys m). ?t \<le> k" using assms(2) by auto
  have "Min {k \<in> set (keys m). ?t \<le> k} = ?t"
    by (rule Min_eqI) (use assms(2) in auto)
  moreover have "?t \<in> dom (hashMap m)" using assms(2) B(2) by simp
  ultimately show ?thesis using Get_sorted(1) [OF B(1) ne ex] by (auto simp: dom_def)
qed

lemma Add_two_hashMap:
  "hashMap (Adds [[p, q]] m) =
     (\<lambda>k. if k \<in> vnodes (hash m) (replicas m) q then Some q
          else if k \<in> vnodes (hash m) (replicas m) p then Some p else hashMap m k)"
  by (rule ext) (simp add: Adds_def Add_def addPeer_fields)

lemma label_collision:
  "vnode h ''0x'' 1 = uint (h ''10x'')" "vnode h ''x'' 10 = uint (h ''10x'')"
  by (simp_all add: vnode_def Itoa_small)

lemma Get_last_added:
  assumes "m = Adds [[p, q]] (New crc 11 hf)"
    and "uint (hash m key) \<in> vnodes (hash m) 11 q"
  shows "Get key m = q"
proof -
  have h: "hash m = hash (New crc 11 hf)" by (rule ring_built(3) [OF assms(1)])
  have "uint (hash m key) \<in> set (keys m)"
    using assms(2) by (simp add: ring_built(4) [OF assms(1)] h)
  then have "hashMap m (uint (hash m key)) = Some (Get key m)"
    by (rule Get_at_vnode [OF assms(1)])
  moreover have "hashMap m (uint (hash m key)) = Some q"
    using assms(2) by (simp add: assms(1) Add_two_hashMap New_fields h [unfolded assms(1)])
  ultimately show ?thesis by simp
qed

text \<open>
  C3 as stated fails. With eleven replicas, replica 1 of peer \<open>0x\<close> and replica 10 of peer
  \<open>x\<close> are both hashed from the bytes \<open>10x\<close>, whatever the hash function; the ring keeps
  the peer that was added last, so the order of the peers decides the owner of the key
  \<open>10x\<close>.
\<close>

theorem Get_order_dependent:
  "set (concat [[''0x'', ''x'']]) = set (concat [[''x'', ''0x'']]) \<and>
   Get ''10x'' (Adds [[''0x'', ''x'']] (New exampleHash 11 None)) = ''x'' \<and>
   Get ''10x'' (Adds [[''x'', ''0x'']] (New exampleHash 11 None)) = ''0x''"
proof (intro conjI)
  show "set (concat [[''0x'', ''x'']]) = set (concat [[''x'', ''0x'']])" by auto
  show "Get ''10x'' (Adds [[''0x'', ''x'']] (New exampleHash 11 None)) = ''x''"
  proof (rule Get_last_added [OF refl])
    show "uint (hash (Adds [[''0x'', ''x'']] (New exampleHash 11 None)) ''10x'')
          \<in> vnodes (hash (Adds [[''0x'', ''x'']] (New exampleHash 11 None))) 11 ''x''"
      unfolding vnodes_def label_collision(2) [symmetric] by simp
  qed
  show "Get ''10x'' (Adds [[''x'', ''0x'']] (New exampleHash 11 None)) = ''0x''"
  proof (rule Get_last_added [OF refl])
    show "uint (hash (Adds [[''x'', ''0x'']] (New exampleHash 11 None)) ''10x'')
          \<in> vnodes (hash (Adds [[''x'', ''0x'']] (New exampleHash 11 None))) 11 ''0x''"
      unfolding vnodes_def label_collision(1) [symmetric] by simp
  qed
qed

section \<open>ByteView\<close>

text \<open>
  C6 says that \<open>ReadAt\<close> reports end-of-data with zero bytes when the offset is at or past
  the length of the content, and copies from the offset otherwise. The code compares the
  offset with the length of the destination buffer instead. Reading the five bytes
  \<open>hello\<close> at offset 3 into a buffer of two bytes copies nothing and reports end-of-data,
  though two bytes are there; reading the two bytes \<open>hi\<close> at offset 5 into a buffer of ten
  bytes panics in the slice expression.
\<close>

theorem ReadAt_tests_buffer_length:
  "ByteView_Len \<lparr>bv_b = None, bv_s = ''hello''\<rparr> = 5 \<and>
   ByteView_ReadAt \<lparr>bv_b = None, bv_s = ''hello''\<rparr> ''__'' 3 = Inr (''__'', 0, Some io_EOF) \<and>
   ByteView_Len \<lparr>bv_b = None, bv_s = ''hi''\<rparr> = 2 \<and>
   ByteView_ReadAt \<lparr>bv_b = None, bv_s = ''hi''\<rparr> ''__________'' 5 = Inl OutOfRange"
  by (simp add: ByteView_Len_def ByteView_ReadAt_def ByteView_SliceFrom_def)

section \<open>Sinks\<close>

lemma copy_fresh: "snd (copy (replicate (length bs) c) bs) = bs"
  by (simp add: copy_def)

lemma bytes_of_simps [simp]: "bytes_of None = []" "bytes_of (Some bs) = bs"
  by (simp_all add: bytes_of_def)

lemma cloneBytes_eq [simp]: "cloneBytes sl = Some (bytes_of sl)"
  by (simp add: cloneBytes_def len_def copy_fresh)

lemma len_simps [simp]: "len None = 0" "len (Some bs) = length bs"
  by (simp_all add: len_def)

lemma truncate_into_Some:
  "truncate_into (Some ds) src = Some (take (length ds) src)"
  by (auto simp: truncate_into_def copy_def min_def Let_def)

lemma bytes_of_truncate_into:
  "bytes_of (truncate_into d src) = take (len d) src"
  by (cases d) (simp_all add: truncate_into_Some, simp add: truncate_into_def)

subsection \<open>What \<open>view\<close> holds after a successful call, on a sink in any state\<close>

lemma SetString_viewContent:
  assumes "validDst sk" and "SetString unmarshal str sk = Inr (None, sk')"
  shows "viewContent sk' = Some str"
  using assms
  by (cases sk)
     (auto simp: viewContent_def ByteView_String_def Let_def split: option.splits prod.splits)

lemma SetBytes_viewContent:
  assumes "validDst sk" and "SetBytes unmarshal b sk = Inr (None, sk')"
  shows "viewContent sk' = Some (bytes_of b)"
  using assms
  by (cases sk)
     (auto simp: viewContent_def ByteView_String_def allocBytesSink_setBytesOwned_def
        truncBytesSink_setBytesOwned_def split: option.splits prod.splits)

text \<open>
  \<^verbatim>\<open>stringSink.SetProto\<close> keeps the text of the mirror, which shows through when the encoder
  returns a nil slice; so a string sink has to have an empty text in its mirror, as a new
  one has, or the encoding has to be a non-nil slice.
\<close>

lemma SetProto_viewContent:
  assumes "validDst sk" and "SetProto marshal unmarshal m sk = Inr (None, sk')"
    and "\<And>p v. sk = stringSink p v \<Longrightarrow> bv_s v = '''' \<or> marshal m \<noteq> Inr None"
  shows "\<exists>enc. marshal m = Inr enc \<and> viewContent sk' = Some (bytes_of enc)"
proof (cases "marshal m")
  case (Inl err)
  with assms(2) show ?thesis by (cases sk) auto
next
  case (Inr enc)
  have "viewContent sk' = Some (bytes_of enc)"
  proof (cases sk)
    case (stringSink p v)
    with assms Inr show ?thesis
      by (cases enc) (auto simp: viewContent_def ByteView_String_def split: option.splits)
  next
    case (byteViewSink dst)
    with assms Inr show ?thesis
      by (cases enc) (auto simp: viewContent_def ByteView_String_def split: option.splits)
  next
    case (protoSink dst ty v)
    with assms Inr show ?thesis
      by (cases enc)
         (auto simp: viewContent_def ByteView_String_def split: option.splits prod.splits)
  next
    case (allocBytesSink dst v)
    with assms Inr show ?thesis
      by (cases enc)
         (auto simp: viewContent_def ByteView_String_def allocBytesSink_setBytesOwned_def
            split: option.splits if_splits)
  next
    case (truncBytesSink dst v)
    with assms Inr show ?thesis
      by (cases enc)
         (auto simp: viewContent_def ByteView_String_def truncBytesSink_setBytesOwned_def
            split: option.splits)
  qed
  with Inr show ?thesis by simp
qed

lemma constructed_valid:
  assumes "sk = StringSink (Some str0) \<or> ByteViewSink (Some bv0) = Inr sk \<or> sk = ProtoSink m0 \<or>
           sk = AllocatingByteSliceSink (Some d0) \<or> sk = TruncatingByteSliceSink (Some d1)"
  shows "validDst sk" and "\<And>p v. sk = stringSink p v \<Longrightarrow> bv_s v = ''''"
  using assms
  by (auto simp: StringSink_def ByteViewSink_def ProtoSink_def AllocatingByteSliceSink_def
      TruncatingByteSliceSink_def zeroByteView_def)

text \<open>
  On a sink of any of the five variants as its constructor returns it for a destination
  that is not nil, the mirror is the zero ByteView, so there every successful setter leaves
  \<open>view\<close> with the bytes of its input.
\<close>

lemma Set_then_view:
  assumes "sk = StringSink (Some str0) \<or> ByteViewSink (Some bv0) = Inr sk \<or> sk = ProtoSink m0 \<or>
           sk = AllocatingByteSliceSink (Some d0) \<or> sk = TruncatingByteSliceSink (Some d1)"
  shows "(SetBytes unmarshal b sk = Inr (None, sk') \<longrightarrow> viewContent sk' = Some (bytes_of b)) \<and>
         (SetString unmarshal str sk = Inr (None, sk') \<longrightarrow> viewContent sk' = Some str) \<and>
         (SetProto marshal unmarshal m sk = Inr (None, sk') \<longrightarrow>
            (\<exists>enc. marshal m = Inr enc \<and> viewContent sk' = Some (bytes_of enc)))"
proof (intro conjI impI)
  note V = constructed_valid [OF assms]
  show "viewContent sk' = Some (bytes_of b)" if "SetBytes unmarshal b sk = Inr (None, sk')"
    using SetBytes_viewContent [OF V(1) that] .
  show "viewContent sk' = Some str" if "SetString unmarshal str sk = Inr (None, sk')"
    using SetString_viewContent [OF V(1) that] .
  show "\<exists>enc. marshal m = Inr enc \<and> viewContent sk' = Some (bytes_of enc)"
    if "SetProto marshal unmarshal m sk = Inr (None, sk')"
    using SetProto_viewContent [OF V(1) that] V(2) by blast
qed

lemma Set_then_view_example:
  "SetBytes (\<lambda>b m. (None, m)) (Some ''ab'') (TruncatingByteSliceSink (Some (Some ''xyz'')) :: unit Sink) =
     Inr (None, truncBytesSink (Some (Some ''ab'')) \<lparr>bv_b = Some ''ab'', bv_s = ''''\<rparr>) \<and>
   viewContent (truncBytesSink (Some (Some ''ab'')) \<lparr>bv_b = Some ''ab'', bv_s = ''''\<rparr> :: unit Sink)
     = Some ''ab'' \<and>
   SetString (\<lambda>b m. (None, m)) ''ab'' (StringSink (Some ''old'') :: unit Sink) =
     Inr (None, stringSink (Some ''ab'') \<lparr>bv_b = None, bv_s = ''ab''\<rparr>) \<and>
   viewContent (stringSink (Some ''ab'') \<lparr>bv_b = None, bv_s = ''ab''\<rparr> :: unit Sink) = Some ''ab'' \<and>
   SetProto (\<lambda>m. Inr (Some ''enc'')) (\<lambda>b m. (None, m)) () (ProtoSink ()) =
     Inr (None, protoSink () '''' \<lparr>bv_b = Some ''enc'', bv_s = ''''\<rparr>) \<and>
   viewContent (protoSink () '''' \<lparr>bv_b = Some ''enc'', bv_s = ''''\<rparr>) = Some ''enc''"
proof -
  let ?u = "\<lambda>(b :: slice) (m :: unit). (None :: error option, m)"
  let ?ma = "\<lambda>m :: unit. (Inr (Some ''enc'') :: error + slice)"
  have 1: "SetBytes ?u (Some ''ab'') (TruncatingByteSliceSink (Some (Some ''xyz''))) =
     Inr (None, truncBytesSink (Some (Some ''ab'')) \<lparr>bv_b = Some ''ab'', bv_s = ''''\<rparr>)"
    by (simp add: TruncatingByteSliceSink_def truncBytesSink_setBytesOwned_def
        truncate_into_Some zeroByteView_def)
  have 2: "SetString ?u ''ab'' (StringSink (Some ''old'')) =
     Inr (None, stringSink (Some ''ab'') \<lparr>bv_b = None, bv_s = ''ab''\<rparr>)"
    by (simp add: StringSink_def zeroByteView_def)
  have 3: "SetProto ?ma ?u () (ProtoSink ()) =
     Inr (None, protoSink () '''' \<lparr>bv_b = Some ''enc'', bv_s = ''''\<rparr>)"
    by (simp add: ProtoSink_def zeroByteView_def)
  have a: "viewContent (truncBytesSink (Some (Some ''ab'')) \<lparr>bv_b = Some ''ab'', bv_s = ''''\<rparr> :: unit Sink)
     = Some ''ab''"
    using Set_then_view [where sk = "TruncatingByteSliceSink (Some (Some ''xyz''))"
        and ?d1.0 = "Some ''xyz''" and unmarshal = ?u and b = "Some ''ab''"] 1
    by simp
  have b: "viewContent (stringSink (Some ''ab'') \<lparr>bv_b = None, bv_s = ''ab''\<rparr> :: unit Sink)
     = Some ''ab''"
    using Set_then_view [where sk = "StringSink (Some ''old'')" and ?str0.0 = "''old''"
        and unmarshal = ?u and str = "''ab''"] 2
    by simp
  have c: "viewContent (protoSink () '''' \<lparr>bv_b = Some ''enc'', bv_s = ''''\<rparr>) = Some ''enc''"
    using Set_then_view [where sk = "ProtoSink ()" and ?m0.0 = "()" and unmarshal = ?u
        and marshal = ?ma and m = "()"] 3
    by simp
  from 1 a 2 b 3 c show ?thesis by (intro conjI)
qed

text \<open>
  C4 says that on every sink with a valid destination a successful \<open>SetBytes\<close>,
  \<open>SetString\<close> or \<open>SetProto\<close> leaves \<open>view\<close> with the bytes of the input. The lemmas above
  show it for all five variants and all three setters but one: \<^verbatim>\<open>stringSink.SetProto\<close> assigns
  \<^verbatim>\<open>sk.v.b = b\<close> and does not clear \<^verbatim>\<open>sk.v.s\<close>, as \<^verbatim>\<open>protoSink.SetProto\<close> and both
  \<^verbatim>\<open>setBytesOwned\<close> do. Take a new string sink and call \<open>SetString\<close> with \<open>ab\<close>, then
  \<open>SetProto\<close> with a message that the encoder encodes as a nil slice without an error:
  both calls succeed, the destination string is empty, as the encoding is, and \<open>view\<close>
  still holds \<open>ab\<close>. The same calls on an allocating sink leave \<open>view\<close> empty.
\<close>

theorem stringSink_SetProto_keeps_text:
  "SetString (\<lambda>b m. (None, m)) ''ab'' (StringSink (Some []) :: unit Sink) =
     Inr (None, stringSink (Some ''ab'') \<lparr>bv_b = None, bv_s = ''ab''\<rparr>) \<and>
   SetProto (\<lambda>m. Inr None) (\<lambda>b m. (None, m)) ()
       (stringSink (Some ''ab'') \<lparr>bv_b = None, bv_s = ''ab''\<rparr>) =
     Inr (None, stringSink (Some []) \<lparr>bv_b = None, bv_s = ''ab''\<rparr>) \<and>
   view (stringSink (Some []) \<lparr>bv_b = None, bv_s = ''ab''\<rparr> :: unit Sink) =
     Inr (\<lparr>bv_b = None, bv_s = ''ab''\<rparr>, None) \<and>
   viewContent (stringSink (Some []) \<lparr>bv_b = None, bv_s = ''ab''\<rparr> :: unit Sink) = Some ''ab'' \<and>
   SetString (\<lambda>b m. (None, m)) ''ab'' (AllocatingByteSliceSink (Some None) :: unit Sink) =
     Inr (None, allocBytesSink (Some (Some ''ab'')) \<lparr>bv_b = None, bv_s = ''ab''\<rparr>) \<and>
   SetProto (\<lambda>m. Inr None) (\<lambda>b m. (None, m)) ()
       (allocBytesSink (Some (Some ''ab'')) \<lparr>bv_b = None, bv_s = ''ab''\<rparr>) =
     Inr (None, allocBytesSink (Some (Some [])) \<lparr>bv_b = None, bv_s = []\<rparr>) \<and>
   viewContent (allocBytesSink (Some (Some [])) \<lparr>bv_b = None, bv_s = []\<rparr> :: unit Sink) = Some []"
  by (simp add: StringSink_def AllocatingByteSliceSink_def zeroByteView_def viewContent_def
      ByteView_String_def allocBytesSink_setBytesOwned_def)

text \<open>
  C5. The truncating sink, in any state, with a destination pointer that refers to a
  slice \<open>d\<close>: \<open>SetBytes\<close> and \<open>SetString\<close> succeed, and so does \<open>SetProto\<close> when the encoder
  does. Afterwards the destination is not longer than \<open>d\<close> was; when the input is shorter
  than \<open>d\<close> was, the destination has the length and the bytes of the input; when the input
  is at least as long, the destination holds the first \<open>len d\<close> bytes of the input.
\<close>

theorem truncating_sink_destination:
  assumes "sk = truncBytesSink (Some d) v"
    and "call = SetBytes unmarshal b sk \<and> input = bytes_of b \<or>
         call = SetString unmarshal str sk \<and> input = str \<or>
         call = SetProto marshal unmarshal m sk \<and> marshal m = Inr enc \<and> input = bytes_of enc"
  shows "\<exists>sk' d'. call = Inr (None, sk') \<and> sliceDst sk' = Some d' \<and>
           len d' \<le> len d \<and>
           (length input < len d \<longrightarrow> len d' = length input \<and> bytes_of d' = input) \<and>
           (len d \<le> length input \<longrightarrow> bytes_of d' = take (len d) input)"
proof -
  have "\<exists>v'. call = Inr (None, truncBytesSink (Some (truncate_into d input)) v')"
    using assms by (auto simp: truncBytesSink_setBytesOwned_def)
  then obtain v' where c: "call = Inr (None, truncBytesSink (Some (truncate_into d input)) v')"
    by blast
  have "len (truncate_into d input) = min (len d) (length input)"
    by (simp add: len_def bytes_of_truncate_into)
  then show ?thesis
    using c by (auto simp: bytes_of_truncate_into)
qed

theorem truncating_sink_destination_witness:
  "SetBytes (\<lambda>b m. (None, m)) (Some ''abcd'') (truncBytesSink (Some (Some ''0123456789'')) zeroByteView :: unit Sink)
     = Inr (None, truncBytesSink (Some (Some ''abcd'')) \<lparr>bv_b = Some ''abcd'', bv_s = ''''\<rparr> :: unit Sink) \<and>
   SetString (\<lambda>b m. (None, m)) ''abcdef'' (truncBytesSink (Some (Some ''012'')) zeroByteView :: unit Sink)
     = Inr (None, truncBytesSink (Some (Some ''abc'')) \<lparr>bv_b = None, bv_s = ''abcdef''\<rparr> :: unit Sink)"
proof -
  let ?u = "\<lambda>(b :: slice) (m :: unit). (None :: error option, m)"
  let ?c1 = "SetBytes ?u (Some ''abcd'') (truncBytesSink (Some (Some ''0123456789'')) zeroByteView)"
  let ?c2 = "SetString ?u ''abcdef'' (truncBytesSink (Some (Some ''012'')) zeroByteView)"
  from truncating_sink_destination [where d = "Some ''0123456789''" and v = zeroByteView
      and call = ?c1 and unmarshal = ?u and b = "Some ''abcd''" and input = "''abcd''", OF refl]
  obtain sk1 d1 where 1: "?c1 = Inr (None, sk1)" "sliceDst sk1 = Some d1" "bytes_of d1 = ''abcd''"
    by auto
  from truncating_sink_destination [where d = "Some ''012''" and v = zeroByteView
      and call = ?c2 and unmarshal = ?u and str = "''abcdef''" and input = "''abcdef''", OF refl]
  obtain sk2 d2 where 2: "?c2 = Inr (None, sk2)" "sliceDst sk2 = Some d2" "bytes_of d2 = ''abc''"
    by auto
  show ?thesis
    using 1 2
    by (auto simp: truncBytesSink_setBytesOwned_def truncate_into_Some zeroByteView_def)
qed

text \<open>
  C8, as the code has it. The two byte-slice sinks test their destination pointer: on an
  allocating or a truncating sink whose destination pointer is nil, \<open>SetBytes\<close> and
  \<open>SetString\<close> return the nil-destination error, \<open>SetProto\<close> returns the error of the
  encoder or else the nil-destination error, and the sink is as before, so the mirror of a
  new sink stays the zero ByteView. \<open>ByteViewSink\<close> panics when it is given a nil pointer.
\<close>

theorem nil_slice_destination:
  assumes "sk = AllocatingByteSliceSink None \<and> msg = ''nil AllocatingByteSliceSink *[]byte dst'' \<or>
           sk = TruncatingByteSliceSink None \<and> msg = ''nil TruncatingByteSliceSink *[]byte dst''"
  shows "SetBytes unmarshal b sk = Inr (Some (errors_New msg), sk) \<and>
         SetString unmarshal str sk = Inr (Some (errors_New msg), sk) \<and>
         SetProto marshal unmarshal m sk =
           Inr (Some (case marshal m of Inl err \<Rightarrow> err | Inr enc \<Rightarrow> errors_New msg), sk) \<and>
         view sk = Inr (zeroByteView, None) \<and>
         (ByteViewSink None :: panic + 'm Sink) = Inl (ExplicitPanic ''nil dst'')"
  using assms
  by (auto simp: AllocatingByteSliceSink_def TruncatingByteSliceSink_def ByteViewSink_def
      allocBytesSink_setBytesOwned_def truncBytesSink_setBytesOwned_def split: sum.splits)

theorem nil_slice_destination_witness:
  "SetBytes (\<lambda>b m. (None, m)) (Some ''ab'') (AllocatingByteSliceSink None :: unit Sink) =
     Inr (Some (errors_New ''nil AllocatingByteSliceSink *[]byte dst''), AllocatingByteSliceSink None) \<and>
   SetProto (\<lambda>m. Inl (proto_error ''e'')) (\<lambda>b m. (None, m)) () (TruncatingByteSliceSink None) =
     Inr (Some (proto_error ''e''), TruncatingByteSliceSink None)"
proof -
  let ?u = "\<lambda>(b :: slice) (m :: unit). (None :: error option, m)"
  have 1: "SetBytes ?u (Some ''ab'') (AllocatingByteSliceSink None :: unit Sink) =
     Inr (Some (errors_New ''nil AllocatingByteSliceSink *[]byte dst''), AllocatingByteSliceSink None)"
    using nil_slice_destination [where sk = "AllocatingByteSliceSink None :: unit Sink"
      and msg = "''nil AllocatingByteSliceSink *[]byte dst''" and unmarshal = ?u
      and b = "Some ''ab''", THEN conjunct1]
    by simp
  have 2: "SetProto (\<lambda>m. Inl (proto_error ''e'')) ?u () (TruncatingByteSliceSink None) =
     Inr (Some (proto_error ''e''), TruncatingByteSliceSink None)"
    using nil_slice_destination [where sk = "TruncatingByteSliceSink None :: unit Sink"
      and msg = "''nil TruncatingByteSliceSink *[]byte dst''" and unmarshal = ?u
      and marshal = "\<lambda>m. Inl (proto_error ''e'')" and m = "()",
      THEN conjunct2, THEN conjunct2, THEN conjunct1]
    by simp
  from 1 2 show ?thesis by (intro conjI)
qed

text \<open>
  C8 as stated fails: a string sink is constructed with a nil pointer without complaint,
  and \<open>SetString\<close>, \<open>SetBytes\<close> and \<open>SetProto\<close> then write through the nil pointer, which is a
  panic and not a returned error; \<open>ByteViewSink\<close> panics on a nil pointer straight away.
\<close>

theorem nil_destination_panics:
  "SetString (\<lambda>b m. (None, m)) ''ab'' (StringSink None :: unit Sink) = Inl NilDereference \<and>
   SetBytes (\<lambda>b m. (None, m)) (Some ''ab'') (StringSink None :: unit Sink) = Inl NilDereference \<and>
   SetProto (\<lambda>m. Inr (Some ''ab'')) (\<lambda>b m. (None, m)) () (StringSink None) = Inl NilDereference \<and>
   (ByteViewSink None :: panic + unit Sink) = Inl (ExplicitPanic ''nil dst'')"
  by (simp add: StringSink_def ByteViewSink_def)

section \<open>The LRU cache\<close>

subsection \<open>The list, the map and the heap stay linked\<close>

lemma fire_fields [simp]:
  "entries (fire lru k v hp) = entries hp" "nextElem (fire lru k v hp) = nextElem hp"
  by (simp_all add: fire_def split: option.splits)

lemma linked_empty: "linked Map.empty [] hp"
  by (simp add: linked_def)

lemma linked_outside:
  assumes "linked m l hp" "entries hp' = entries hp" "nextElem hp' = nextElem hp"
  shows "linked m l hp'"
  using assms by (simp add: linked_def)

lemma linked_key_unique:
  assumes "linked m l hp" "e \<in> set l" "e' \<in> set l"
    "entries hp e = Some (k, v)" "entries hp e' = Some (k, v')"
  shows "e = e'"
proof -
  have "m k = Some e" "m k = Some e'" using assms by (auto simp: linked_def)
  then show ?thesis by simp
qed

lemma linked_remove:
  assumes L: "linked m l hp" and e: "e \<in> set l" and ent: "entries hp e = Some (k, v)"
  shows "linked (m(k := None)) (remove1 e l) hp"
  unfolding linked_def
proof (intro conjI ballI allI impI)
  have d: "distinct l" using L by (simp add: linked_def)
  show "distinct (remove1 e l)" using d by simp
  fix e' assume e': "e' \<in> set (remove1 e l)"
  then have in_l: "e' \<in> set l" and ne: "e' \<noteq> e" using d by auto
  show "e' < nextElem hp" using L in_l by (simp add: linked_def)
  obtain k' v' where kv: "entries hp e' = Some (k', v')" "m k' = Some e'"
    using L in_l unfolding linked_def by blast
  have "k' \<noteq> k"
  proof
    assume "k' = k"
    then have "e = e'" using linked_key_unique [OF L e in_l ent] kv(1) by simp
    then show False using ne by simp
  qed
  then show "\<exists>ka va. entries hp e' = Some (ka, va) \<and> (m(k := None)) ka = Some e'"
    using kv by auto
next
  fix k' e' assume a: "(m(k := None)) k' = Some e'"
  then have k': "k' \<noteq> k" and mk: "m k' = Some e'" by (auto split: if_splits)
  then have in_l: "e' \<in> set l" and ex: "\<exists>v. entries hp e' = Some (k', v)"
    using L unfolding linked_def by blast+
  have "e' \<noteq> e" using ex ent k' by auto
  then show "e' \<in> set (remove1 e l)" using in_l by simp
  show "\<exists>v. entries hp e' = Some (k', v)" by (rule ex)
qed

lemma linked_MoveToFront:
  assumes "linked m l hp"
  shows "linked m (MoveToFront e l) hp"
  using assms by (auto simp: linked_def MoveToFront_def)

lemma linked_set_value:
  assumes L: "linked m l hp" and ent: "entries hp e = Some (k, v0)"
  shows "linked m l (hp\<lparr>entries := (entries hp)(e \<mapsto> (k, v))\<rparr>)"
  unfolding linked_def
proof (intro conjI ballI allI impI)
  let ?hp' = "hp\<lparr>entries := (entries hp)(e \<mapsto> (k, v))\<rparr>"
  show "distinct l" using L by (simp add: linked_def)
  {
    fix e' assume e': "e' \<in> set l"
    show "e' < nextElem ?hp'" using L e' by (simp add: linked_def)
    obtain k' v' where kv: "entries hp e' = Some (k', v')" "m k' = Some e'"
      using L e' unfolding linked_def by blast
    show "\<exists>ka va. entries ?hp' e' = Some (ka, va) \<and> m ka = Some e'"
    proof (cases "e' = e")
      case True
      then have "k' = k" using kv(1) ent by simp
      then show ?thesis using kv(2) True by simp
    next
      case False
      then show ?thesis using kv by simp
    qed
  }
  {
    fix k' e' assume a: "m k' = Some e'"
    then have in_l: "e' \<in> set l" and ex: "\<exists>v'. entries hp e' = Some (k', v')"
      using L unfolding linked_def by blast+
    show "e' \<in> set l" by (rule in_l)
    show "\<exists>va. entries ?hp' e' = Some (k', va)"
    proof (cases "e' = e")
      case True
      then have "k' = k" using ex ent by auto
      then show ?thesis using True by simp
    next
      case False
      then show ?thesis using ex by simp
    qed
  }
qed

lemma linked_push:
  assumes L: "linked m l hp" and new: "m key = None"
  shows "linked (m(key \<mapsto> nextElem hp)) (nextElem hp # l)
           (hp\<lparr>entries := (entries hp)(nextElem hp \<mapsto> (key, v)), nextElem := Suc (nextElem hp)\<rparr>)"
  unfolding linked_def
proof (intro conjI ballI allI impI)
  let ?n = "nextElem hp"
  let ?hp' = "hp\<lparr>entries := (entries hp)(?n \<mapsto> (key, v)), nextElem := Suc ?n\<rparr>"
  have fresh: "?n \<notin> set l" using L unfolding linked_def by blast
  show "distinct (?n # l)" using L fresh by (simp add: linked_def)
  {
    fix e assume e: "e \<in> set (?n # l)"
    show "e < nextElem ?hp'" using L e unfolding linked_def by (auto simp: less_Suc_eq)
    show "\<exists>k v'. entries ?hp' e = Some (k, v') \<and> (m(key \<mapsto> ?n)) k = Some e"
    proof (cases "e = ?n")
      case True
      then show ?thesis by simp
    next
      case False
      then have in_l: "e \<in> set l" using e by simp
      then obtain k v' where kv: "entries hp e = Some (k, v')" "m k = Some e"
        using L unfolding linked_def by blast
      then have "k \<noteq> key" using new by auto
      then show ?thesis using kv False by simp
    qed
  }
  {
    fix k e assume a: "(m(key \<mapsto> ?n)) k = Some e"
    show "e \<in> set (?n # l)" using a L unfolding linked_def by (auto split: if_splits)
    show "\<exists>v'. entries ?hp' e = Some (k, v')"
    proof (cases "k = key")
      case True
      then show ?thesis using a by simp
    next
      case False
      then have mk: "m k = Some e" using a by simp
      then have "e \<in> set l" "\<exists>v'. entries hp e = Some (k, v')"
        using L unfolding linked_def by blast+
      then show ?thesis using fresh by auto
    qed
  }
qed

subsection \<open>What each operation does to a linked state\<close>

lemma lruInv_cases:
  assumes "lruInv (lru, hp)"
  obtains (nil) "cache lru = None" "dll lru = None"
  | (linked) m l where "cache lru = Some m" "dll lru = Some l" "linked m l hp"
  using assms by (auto simp: lruInv_def split: option.splits)

lemma lruInv_linked:
  "cache lru = Some m \<Longrightarrow> dll lru = Some l \<Longrightarrow> linked m l hp \<Longrightarrow> lruInv (lru, hp)"
  by (simp add: lruInv_def)

lemma contents_linked:
  "dll lru = Some l \<Longrightarrow> contents (lru, hp) = map (\<lambda>e. the (entries hp e)) l"
  by (simp add: contents_def)

lemma contents_nil: "dll lru = None \<Longrightarrow> contents (lru, hp) = []"
  by (simp add: contents_def)

lemma linked_keys:
  assumes "linked m l hp"
  shows "fst ` set (map (\<lambda>e. the (entries hp e)) l) = dom m"
proof (intro set_eqI iffI)
  fix k assume "k \<in> fst ` set (map (\<lambda>e. the (entries hp e)) l)"
  then obtain e where e: "e \<in> set l" "k = fst (the (entries hp e))" by auto
  then obtain k' v where "entries hp e = Some (k', v)" "m k' = Some e"
    using assms unfolding linked_def by blast
  then show "k \<in> dom m" using e by auto
next
  fix k assume "k \<in> dom m"
  then obtain e where "m k = Some e" by auto
  then have "e \<in> set l" "\<exists>v. entries hp e = Some (k, v)"
    using assms unfolding linked_def by blast+
  then show "k \<in> fst ` set (map (\<lambda>e. the (entries hp e)) l)" by force
qed

lemma removeElement_linked:
  assumes c: "cache lru = Some m" and d: "dll lru = Some l" and L: "linked m l hp"
    and e: "e \<in> set l"
  shows "\<exists>k v. entries hp e = Some (k, v) \<and>
           removeElement e (lru, hp) =
             Inr (lru\<lparr>dll := Some (remove1 e l), cache := Some (m(k := None))\<rparr>, fire lru k v hp) \<and>
           linked (m(k := None)) (remove1 e l) (fire lru k v hp)"
proof -
  obtain k v where kv: "entries hp e = Some (k, v)"
    using L e unfolding linked_def by blast
  have "linked (m(k := None)) (remove1 e l) (fire lru k v hp)"
    by (rule linked_outside [OF linked_remove [OF L e kv]]) simp_all
  then show ?thesis using kv c d by (simp add: removeElement_def)
qed

lemma contents_remove_last:
  assumes "distinct l" "l \<noteq> []"
  shows "map f (remove1 (last l) l) = butlast (map f l)"
proof -
  have "remove1 (last l) l = butlast l"
    using assms by (induction l) (auto simp: remove1_idem)
  then show ?thesis by (simp add: map_butlast)
qed

lemma RemoveOldest_linked:
  assumes c: "cache lru = Some m" and d: "dll lru = Some l" and L: "linked m l hp"
    and ne: "l \<noteq> []"
  shows "\<exists>lru' hp' k v. RemoveOldest (lru, hp) = Inr (lru', hp') \<and> lruInv (lru', hp') \<and>
           MaxEntries lru' = MaxEntries lru \<and> OnEvicted lru' = OnEvicted lru \<and>
           cache lru' \<noteq> None \<and>
           last (contents (lru, hp)) = (k, v) \<and> hp' = fire lru k v hp \<and>
           contents (lru', hp') = butlast (contents (lru, hp))"
proof -
  have e: "last l \<in> set l" using ne by simp
  from removeElement_linked [OF c d L e]
  obtain k v where kv: "entries hp (last l) = Some (k, v)"
    and r: "removeElement (last l) (lru, hp) =
             Inr (lru\<lparr>dll := Some (remove1 (last l) l), cache := Some (m(k := None))\<rparr>, fire lru k v hp)"
    and L': "linked (m(k := None)) (remove1 (last l) l) (fire lru k v hp)"
    by blast
  have dl: "distinct l" using L by (simp add: linked_def)
  have "last (contents (lru, hp)) = (k, v)"
    using ne kv d by (simp add: contents_def last_map)
  moreover have "contents (lru\<lparr>dll := Some (remove1 (last l) l), cache := Some (m(k := None))\<rparr>,
                   fire lru k v hp) = butlast (contents (lru, hp))"
    using d by (simp add: contents_def contents_remove_last [OF dl ne])
  moreover have "RemoveOldest (lru, hp) =
      Inr (lru\<lparr>dll := Some (remove1 (last l) l), cache := Some (m(k := None))\<rparr>, fire lru k v hp)"
    using c d ne r by (simp add: RemoveOldest_def)
  moreover have "lruInv (lru\<lparr>dll := Some (remove1 (last l) l), cache := Some (m(k := None))\<rparr>,
                   fire lru k v hp)"
    using L' by (simp add: lruInv_def)
  ultimately show ?thesis by auto
qed

lemma Add_lru_nil:
  assumes "cache lru = None"
  shows "Add_lru key value (lru, hp) =
         Add_lru key value (lru\<lparr>cache := Some Map.empty, dll := Some []\<rparr>, hp)"
  using assms by (simp add: Add_lru_def)

lemma Add_new_linked:
  assumes c: "cache lru = Some m" and d: "dll lru = Some l" and L: "linked m l hp"
    and new: "m key = None"
  shows "\<exists>lru' hp'. Add_lru key value (lru, hp) = Inr (lru', hp') \<and> lruInv (lru', hp') \<and>
           MaxEntries lru' = MaxEntries lru \<and> OnEvicted lru' = OnEvicted lru \<and>
           cache lru' \<noteq> None \<and>
           (if MaxEntries lru \<noteq> 0 \<and> int (length l) + 1 > MaxEntries lru
            then contents (lru', hp') = butlast ((key, value) # contents (lru, hp)) \<and>
                 (\<exists>k v. last ((key, value) # contents (lru, hp)) = (k, v) \<and>
                        outside hp' = outside (fire lru k v hp))
            else contents (lru', hp') = (key, value) # contents (lru, hp) \<and>
                 outside hp' = outside hp)"
proof -
  let ?e = "nextElem hp"
  let ?hp1 = "hp\<lparr>entries := (entries hp)(?e \<mapsto> (key, value)), nextElem := Suc ?e\<rparr>"
  let ?lru1 = "lru\<lparr>dll := Some (?e # l), cache := Some (m(key \<mapsto> ?e))\<rparr>"
  have L1: "linked (m(key \<mapsto> ?e)) (?e # l) ?hp1" by (rule linked_push [OF L new])
  have fresh: "?e \<notin> set l" using L unfolding linked_def by blast
  have "map (\<lambda>e. the (entries ?hp1 e)) l = map (\<lambda>e. the (entries hp e)) l"
    using fresh by (intro map_cong) auto
  then have cont1: "contents (?lru1, ?hp1) = (key, value) # contents (lru, hp)"
    using d by (simp add: contents_def)
  have inv1: "lruInv (?lru1, ?hp1)" using L1 by (simp add: lruInv_def)
  show ?thesis
  proof (cases "MaxEntries lru \<noteq> 0 \<and> int (length l) + 1 > MaxEntries lru")
    case False
    then have "Add_lru key value (lru, hp) = Inr (?lru1, ?hp1)"
      using c d new by (auto simp: Add_lru_def Let_def)
    then show ?thesis using False inv1 cont1 by auto
  next
    case True
    then have A: "Add_lru key value (lru, hp) = RemoveOldest (?lru1, ?hp1)"
      using c d new by (auto simp: Add_lru_def Let_def)
    from RemoveOldest_linked [of ?lru1 "m(key \<mapsto> ?e)" "?e # l" ?hp1] L1
    obtain lru' hp' k v where R: "RemoveOldest (?lru1, ?hp1) = Inr (lru', hp')"
      "lruInv (lru', hp')" "MaxEntries lru' = MaxEntries ?lru1" "OnEvicted lru' = OnEvicted ?lru1"
      "cache lru' \<noteq> None" "last (contents (?lru1, ?hp1)) = (k, v)" "hp' = fire ?lru1 k v ?hp1"
      "contents (lru', hp') = butlast (contents (?lru1, ?hp1))"
      by auto
    have "outside hp' = outside (fire lru k v hp)"
      using R(7) by (simp add: fire_def split: option.splits)
    then show ?thesis using True A R cont1 by auto
  qed
qed

lemma Add_existing_linked:
  assumes c: "cache lru = Some m" and d: "dll lru = Some l" and L: "linked m l hp"
    and old: "m key = Some e"
  shows "\<exists>lru' hp'. Add_lru key value (lru, hp) = Inr (lru', hp') \<and> lruInv (lru', hp') \<and>
           MaxEntries lru' = MaxEntries lru \<and> OnEvicted lru' = OnEvicted lru \<and>
           cache lru' \<noteq> None \<and> outside hp' = outside hp \<and>
           length (contents (lru', hp')) = length (contents (lru, hp))"
proof -
  obtain v0 where ent: "entries hp e = Some (key, v0)" and e: "e \<in> set l"
    using L old unfolding linked_def by blast
  let ?hp' = "hp\<lparr>entries := (entries hp)(e \<mapsto> (key, value))\<rparr>"
  let ?lru' = "lru\<lparr>dll := Some (MoveToFront e l)\<rparr>"
  have A: "Add_lru key value (lru, hp) = Inr (?lru', ?hp')"
    using c d old ent by (simp add: Add_lru_def)
  have "linked m (MoveToFront e l) ?hp'"
    by (rule linked_MoveToFront [OF linked_set_value [OF L ent]])
  then have "lruInv (?lru', ?hp')" using c by (simp add: lruInv_def)
  moreover have "length (MoveToFront e l) = length l"
  proof -
    have "l \<noteq> []" using e by auto
    then have "0 < length l" by simp
    then show ?thesis using e by (simp add: MoveToFront_def length_remove1)
  qed
  ultimately show ?thesis using A c d by (auto simp: contents_def)
qed

lemma Add_lru_inv:
  assumes inv: "lruInv (lru, hp)"
  shows "\<exists>lru' hp'. Add_lru key value (lru, hp) = Inr (lru', hp') \<and> lruInv (lru', hp') \<and>
           MaxEntries lru' = MaxEntries lru \<and> OnEvicted lru' = OnEvicted lru \<and>
           cache lru' \<noteq> None \<and>
           length (contents (lru', hp')) \<le> length (contents (lru, hp)) + 1 \<and>
           (0 < MaxEntries lru \<and> int (length (contents (lru, hp))) \<le> MaxEntries lru \<longrightarrow>
              int (length (contents (lru', hp'))) \<le> MaxEntries lru)"
proof -
  have linked_case: "\<exists>lru' hp'. Add_lru key value (lru1, hp) = Inr (lru', hp') \<and> lruInv (lru', hp') \<and>
           MaxEntries lru' = MaxEntries lru1 \<and> OnEvicted lru' = OnEvicted lru1 \<and>
           cache lru' \<noteq> None \<and>
           length (contents (lru', hp')) \<le> length (contents (lru1, hp)) + 1 \<and>
           (0 < MaxEntries lru1 \<and> int (length (contents (lru1, hp))) \<le> MaxEntries lru1 \<longrightarrow>
              int (length (contents (lru', hp'))) \<le> MaxEntries lru1)"
    if c: "cache lru1 = Some m" and d: "dll lru1 = Some l" and L: "linked m l hp"
    for lru1 :: "('a, 'b, 'c) LruCache" and m l
  proof (cases "m key")
    case (Some e)
    from Add_existing_linked [OF c d L Some, of "value"] show ?thesis by fastforce
  next
    case None
    have len: "length (contents (lru1, hp)) = length l" using d by (simp add: contents_def)
    from Add_new_linked [OF c d L None, of "value"]
    obtain lru' hp' where A: "Add_lru key value (lru1, hp) = Inr (lru', hp')" "lruInv (lru', hp')"
      "MaxEntries lru' = MaxEntries lru1" "OnEvicted lru' = OnEvicted lru1" "cache lru' \<noteq> None"
      "if MaxEntries lru1 \<noteq> 0 \<and> int (length l) + 1 > MaxEntries lru1
       then contents (lru', hp') = butlast ((key, value) # contents (lru1, hp))
       else contents (lru', hp') = (key, value) # contents (lru1, hp)"
      by (auto split: if_splits)
    have "length (contents (lru', hp')) \<le> length (contents (lru1, hp)) + 1"
      using A(6) by (auto split: if_splits)
    moreover have "int (length (contents (lru', hp'))) \<le> MaxEntries lru1"
      if "0 < MaxEntries lru1" "int (length (contents (lru1, hp))) \<le> MaxEntries lru1"
      using A(6) that len by (auto split: if_splits)
    ultimately show ?thesis using A(1-5) by auto
  qed
  from inv show ?thesis
  proof (cases rule: lruInv_cases)
    case nil
    let ?lru1 = "lru\<lparr>cache := Some Map.empty, dll := Some []\<rparr>"
    have "contents (?lru1, hp) = contents (lru, hp)" using nil by (simp add: contents_def)
    then show ?thesis
      using linked_case [of ?lru1 Map.empty "[]"] linked_empty [of hp] Add_lru_nil [OF nil(1)]
      by simp
  next
    case (linked m l)
    then show ?thesis using linked_case by blast
  qed
qed

lemma Get_lru_inv:
  assumes inv: "lruInv (lru, hp)"
  shows "\<exists>r lru'. Get_lru key (lru, hp) = Inr (r, (lru', hp)) \<and> lruInv (lru', hp) \<and>
           MaxEntries lru' = MaxEntries lru \<and> OnEvicted lru' = OnEvicted lru \<and>
           length (contents (lru', hp)) = length (contents (lru, hp))"
  using inv
proof (cases rule: lruInv_cases)
  case nil
  then show ?thesis using inv by (simp add: Get_lru_def)
next
  case (linked m l)
  show ?thesis
  proof (cases "m key")
    case None
    then show ?thesis using linked inv by (simp add: Get_lru_def)
  next
    case (Some e)
    then obtain v where ent: "entries hp e = Some (key, v)" and e: "e \<in> set l"
      using linked(3) unfolding linked_def by blast
    let ?lru' = "lru\<lparr>dll := Some (MoveToFront e l)\<rparr>"
    have G: "Get_lru key (lru, hp) = Inr (Some v, (?lru', hp))"
      using linked Some ent by (simp add: Get_lru_def)
    have "lruInv (?lru', hp)"
      using linked_MoveToFront [OF linked(3), of e] linked(1) by (simp add: lruInv_def)
    moreover have "length (MoveToFront e l) = length l"
    proof -
      have "0 < length l" using e by (cases l) auto
      then show ?thesis using e by (simp add: MoveToFront_def length_remove1)
    qed
    ultimately show ?thesis using G linked by (simp add: contents_def)
  qed
qed

lemma RemoveOldest_inv:
  assumes inv: "lruInv (lru, hp)"
  shows "\<exists>lru' hp'. RemoveOldest (lru, hp) = Inr (lru', hp') \<and> lruInv (lru', hp') \<and>
           MaxEntries lru' = MaxEntries lru \<and> OnEvicted lru' = OnEvicted lru \<and>
           length (contents (lru', hp')) \<le> length (contents (lru, hp))"
  using inv
proof (cases rule: lruInv_cases)
  case nil
  then show ?thesis using inv by (simp add: RemoveOldest_def)
next
  case (linked m l)
  show ?thesis
  proof (cases "l = []")
    case True
    then show ?thesis using linked inv by (simp add: RemoveOldest_def)
  next
    case False
    from RemoveOldest_linked [OF linked False] show ?thesis by fastforce
  qed
qed

lemma Remove_lru_inv:
  assumes inv: "lruInv (lru, hp)"
  shows "\<exists>lru' hp'. Remove_lru key (lru, hp) = Inr (lru', hp') \<and> lruInv (lru', hp') \<and>
           MaxEntries lru' = MaxEntries lru \<and> OnEvicted lru' = OnEvicted lru \<and>
           length (contents (lru', hp')) \<le> length (contents (lru, hp))"
  using inv
proof (cases rule: lruInv_cases)
  case nil
  then show ?thesis using inv by (simp add: Remove_lru_def)
next
  case (linked m l)
  show ?thesis
  proof (cases "m key")
    case None
    then show ?thesis using linked inv by (simp add: Remove_lru_def)
  next
    case (Some e)
    then have e: "e \<in> set l" using linked(3) unfolding linked_def by blast
    from removeElement_linked [OF linked e]
    obtain k v where r: "removeElement e (lru, hp) =
             Inr (lru\<lparr>dll := Some (remove1 e l), cache := Some (m(k := None))\<rparr>, fire lru k v hp)"
      and L': "linked (m(k := None)) (remove1 e l) (fire lru k v hp)"
      by blast
    have "Remove_lru key (lru, hp) =
        Inr (lru\<lparr>dll := Some (remove1 e l), cache := Some (m(k := None))\<rparr>, fire lru k v hp)"
      using linked Some r by (simp add: Remove_lru_def)
    moreover have "lruInv (lru\<lparr>dll := Some (remove1 e l), cache := Some (m(k := None))\<rparr>,
                     fire lru k v hp)"
      using L' by (simp add: lruInv_def)
    moreover have "length (remove1 e l) \<le> length l"
      by (simp add: length_remove1)
    ultimately show ?thesis using linked by (simp add: contents_def)
  qed
qed

lemma clearLoop_linked:
  assumes "linked m l hp"
  shows "\<exists>hp'. clearLoop f m order hp = Inr hp' \<and>
           entries hp' = entries hp \<and> nextElem hp' = nextElem hp"
  using assms
proof (induction order arbitrary: hp)
  case Nil
  show ?case by simp
next
  case (Cons key rest)
  show ?case
  proof (cases "m key")
    case None
    then show ?thesis using Cons by simp
  next
    case (Some e)
    then obtain v where ent: "entries hp e = Some (key, v)"
      using Cons.prems unfolding linked_def by blast
    let ?hp1 = "hp\<lparr>outside := f key v (outside hp)\<rparr>"
    have "linked m l ?hp1" by (rule linked_outside [OF Cons.prems]) simp_all
    from Cons.IH [OF this] show ?thesis using Some ent by simp
  qed
qed

lemma Clear_inv:
  assumes inv: "lruInv (lru, hp)"
  shows "\<exists>hp'. Clear order (lru, hp) = Inr (lru\<lparr>dll := None, cache := None\<rparr>, hp') \<and>
           lruInv (lru\<lparr>dll := None, cache := None\<rparr>, hp')"
  using inv
proof (cases rule: lruInv_cases)
  case nil
  then show ?thesis by (simp add: Clear_def lruInv_def split: option.splits)
next
  case (linked m l)
  show ?thesis
  proof (cases "OnEvicted lru")
    case None
    then show ?thesis by (simp add: Clear_def lruInv_def)
  next
    case (Some f)
    from clearLoop_linked [OF linked(3), of f order]
    obtain hp' where "clearLoop f m order hp = Inr hp'" by blast
    then show ?thesis using Some linked by (simp add: Clear_def lruInv_def)
  qed
qed

lemma runCall_inv:
  assumes inv: "lruInv st"
  shows "\<exists>st'. runCall c st = Inr st' \<and> lruInv st' \<and>
           MaxEntries (fst st') = MaxEntries (fst st) \<and> OnEvicted (fst st') = OnEvicted (fst st) \<and>
           (0 < MaxEntries (fst st) \<and> int (length (contents st)) \<le> MaxEntries (fst st) \<longrightarrow>
              int (length (contents st')) \<le> MaxEntries (fst st))"
proof -
  obtain lru hp where st: "st = (lru, hp)" by (cases st)
  note inv' = inv [unfolded st]
  show ?thesis
  proof (cases c)
    case (CallAdd k v)
    from Add_lru_inv [OF inv', of k v] show ?thesis unfolding st CallAdd by fastforce
  next
    case (CallGet k)
    from Get_lru_inv [OF inv', of k] show ?thesis unfolding st CallGet by fastforce
  next
    case (CallRemove k)
    from Remove_lru_inv [OF inv', of k] show ?thesis unfolding st CallRemove by fastforce
  next
    case CallRemoveOldest
    from RemoveOldest_inv [OF inv'] show ?thesis unfolding st CallRemoveOldest by fastforce
  next
    case (CallClear order)
    from Clear_inv [OF inv', of order] show ?thesis unfolding st CallClear
      by (fastforce simp: contents_def)
  qed
qed

lemma runCalls_inv:
  assumes "lruInv st" and "MaxEntries (fst st) = C" and "OnEvicted (fst st) = hook"
    and "0 < C \<longrightarrow> int (length (contents st)) \<le> C"
  shows "\<exists>st'. runCalls cs st = Inr st' \<and> lruInv st' \<and>
           MaxEntries (fst st') = C \<and> OnEvicted (fst st') = hook \<and>
           (0 < C \<longrightarrow> int (length (contents st')) \<le> C)"
  using assms
proof (induction cs arbitrary: st)
  case Nil
  then show ?case by simp
next
  case (Cons c cs)
  from runCall_inv [OF Cons.prems(1), of c]
  obtain st1 where s: "runCall c st = Inr st1" "lruInv st1"
    and f: "MaxEntries (fst st1) = MaxEntries (fst st)" "OnEvicted (fst st1) = OnEvicted (fst st)"
    and b: "0 < MaxEntries (fst st) \<and> int (length (contents st)) \<le> MaxEntries (fst st) \<longrightarrow>
              int (length (contents st1)) \<le> MaxEntries (fst st)"
    by blast
  have 1: "MaxEntries (fst st1) = C" "OnEvicted (fst st1) = hook"
    using f Cons.prems(2,3) by simp_all
  have 2: "0 < C \<longrightarrow> int (length (contents st1)) \<le> C"
    using b Cons.prems(2,4) by simp
  from Cons.IH [OF s(2) 1 2] show ?case using s(1) by simp
qed

lemma Len_lru_contents:
  assumes "lruInv st"
  shows "Len_lru st = Inr (int (length (contents st)))"
proof -
  obtain lru hp where st: "st = (lru, hp)" by (cases st)
  from assms [unfolded st] show ?thesis unfolding st
    by (cases rule: lruInv_cases) (simp_all add: Len_lru_def contents_def)
qed

lemma lruInv_NewLru: "lruInv ((NewLru C)\<lparr>OnEvicted := hook\<rparr>, hp)"
  by (simp add: lruInv_def NewLru_def linked_empty)

subsection \<open>Adding a key that is not in the cache\<close>

lemma Add_new:
  assumes inv: "lruInv (lru, hp)" and new: "key \<notin> fst ` set (contents (lru, hp))"
  shows "\<exists>lru' hp'. Add_lru key value (lru, hp) = Inr (lru', hp') \<and> lruInv (lru', hp') \<and>
           MaxEntries lru' = MaxEntries lru \<and> OnEvicted lru' = OnEvicted lru \<and>
           (if MaxEntries lru \<noteq> 0 \<and> int (length (contents (lru, hp))) + 1 > MaxEntries lru
            then contents (lru', hp') = butlast ((key, value) # contents (lru, hp)) \<and>
                 (\<exists>k v. last ((key, value) # contents (lru, hp)) = (k, v) \<and>
                        outside hp' = outside (fire lru k v hp))
            else contents (lru', hp') = (key, value) # contents (lru, hp) \<and>
                 outside hp' = outside hp)"
  using inv
proof (cases rule: lruInv_cases)
  case nil
  let ?lru1 = "lru\<lparr>cache := Some Map.empty, dll := Some []\<rparr>"
  have c: "contents (lru, hp) = []" "contents (?lru1, hp) = []"
    using nil by (simp_all add: contents_def)
  have f: "fire ?lru1 key value hp = fire lru key value hp" by (simp add: fire_def)
  have "cache ?lru1 = Some Map.empty" "dll ?lru1 = Some []" "linked Map.empty [] hp"
    "Map.empty key = None"
    by (simp_all add: linked_empty)
  from Add_new_linked [of ?lru1 Map.empty "[]" hp key "value", OF this]
  obtain lru' hp' where A: "Add_lru key value (?lru1, hp) = Inr (lru', hp')" "lruInv (lru', hp')"
    "MaxEntries lru' = MaxEntries lru" "OnEvicted lru' = OnEvicted lru"
    and E: "if MaxEntries lru \<noteq> 0 \<and> 1 > MaxEntries lru
            then contents (lru', hp') = [] \<and> outside hp' = outside (fire ?lru1 key value hp)
            else contents (lru', hp') = [(key, value)] \<and> outside hp' = outside hp"
    unfolding c by (auto split: if_splits)
  have "Add_lru key value (lru, hp) = Inr (lru', hp')"
    using A(1) Add_lru_nil [OF nil(1)] by simp
  then show ?thesis
    using A(2-4) E unfolding c f by (auto split: if_splits)
next
  case (linked m l)
  have "dom m = fst ` set (contents (lru, hp))"
    using linked_keys [OF linked(3)] linked(2) by (simp add: contents_def)
  then have "m key = None" using new by auto
  from Add_new_linked [OF linked this, of "value"] linked(2)
  show ?thesis by (fastforce simp: contents_def)
qed

lemma foldl_snoc_log: "foldl (\<lambda>h kv. h @ [kv]) acc xs = acc @ xs"
  by (induction xs arbitrary: acc) simp_all

lemma adds_run:
  fixes f :: "'k \<Rightarrow> 'v \<Rightarrow> 'h \<Rightarrow> 'h" and st :: "('k, 'v, 'h) lruState"
  assumes C: "0 < C"
  shows "lruInv st \<Longrightarrow> MaxEntries (fst st) = C \<Longrightarrow> OnEvicted (fst st) = Some f \<Longrightarrow>
         distinct (map fst (done @ kvs)) \<Longrightarrow>
         contents st = rev (drop (length done - nat C) done) \<Longrightarrow>
         outside (snd st) =
           foldl (\<lambda>h kv. f (fst kv) (snd kv) h) h0 (take (length done - nat C) done) \<Longrightarrow>
         \<exists>st'. runCalls (map (\<lambda>(k, v). CallAdd k v) kvs) st = Inr st' \<and> lruInv st' \<and>
           contents st' = rev (drop (length (done @ kvs) - nat C) (done @ kvs)) \<and>
           outside (snd st') =
             foldl (\<lambda>h kv. f (fst kv) (snd kv) h) h0
               (take (length (done @ kvs) - nat C) (done @ kvs))"
proof (induction kvs arbitrary: st "done")
  case Nil
  then show ?case by simp
next
  case (Cons kv rest)
  obtain k v where kv: "kv = (k, v)" by (cases kv)
  obtain lru hp where st: "st = (lru, hp)" by (cases st)
  let ?g = "\<lambda>h kv. f (fst kv) (snd kv) h"
  let ?n = "length done" and ?c = "nat C"
  let ?xs = "contents (lru, hp)"
  have c0: "0 < ?c" using C by simp
  have xs: "?xs = rev (drop (?n - ?c) done)" using Cons.prems(5) st by simp
  have M: "MaxEntries lru = C" "OnEvicted lru = Some f" using Cons.prems(2,3) st by simp_all
  have "k \<notin> fst ` set done" using Cons.prems(4) kv by auto
  then have new: "k \<notin> fst ` set ?xs" using xs by (auto dest: in_set_dropD)
  from Add_new [OF Cons.prems(1) [unfolded st] new, of v]
  obtain lru' hp' where A: "Add_lru k v (lru, hp) = Inr (lru', hp')" "lruInv (lru', hp')"
    "MaxEntries lru' = MaxEntries lru" "OnEvicted lru' = OnEvicted lru"
    and E: "if MaxEntries lru \<noteq> 0 \<and> int (length ?xs) + 1 > MaxEntries lru
            then contents (lru', hp') = butlast ((k, v) # ?xs) \<and>
                 (\<exists>k0 v0. last ((k, v) # ?xs) = (k0, v0) \<and> outside hp' = outside (fire lru k0 v0 hp))
            else contents (lru', hp') = (k, v) # ?xs \<and> outside hp' = outside hp"
    by blast
  have len: "length ?xs = min ?n ?c" using xs by auto
  have post: "contents (lru', hp') = rev (drop (length (done @ [kv]) - ?c) (done @ [kv])) \<and>
        outside hp' = foldl ?g h0 (take (length (done @ [kv]) - ?c) (done @ [kv]))"
  proof (cases "?c \<le> ?n")
    case True
    then have full: "MaxEntries lru \<noteq> 0 \<and> int (length ?xs) + 1 > MaxEntries lru"
      using M(1) C len by auto
    have j: "?n - ?c < ?n" using True c0 by simp
    have dropne: "drop (?n - ?c) done \<noteq> []" using j by simp
    have xsne: "?xs \<noteq> []" using xs dropne by simp
    have S: "length (done @ [kv]) - ?c = Suc (?n - ?c)" using True by simp
    have "butlast ((k, v) # ?xs) = (k, v) # butlast ?xs" using xsne by simp
    also have "butlast ?xs = rev (tl (drop (?n - ?c) done))"
      unfolding xs by (simp add: butlast_rev)
    also have "tl (drop (?n - ?c) done) = drop (Suc (?n - ?c)) done"
      by (simp add: drop_Suc tl_drop)
    finally have b: "butlast ((k, v) # ?xs) = rev (drop (Suc (?n - ?c)) (done @ [kv]))"
      using j kv by simp
    have "last ((k, v) # ?xs) = last ?xs" using xsne by simp
    also have "\<dots> = hd (drop (?n - ?c) done)" unfolding xs using dropne by (simp add: last_rev)
    also have "\<dots> = done ! (?n - ?c)" using j by (simp add: hd_drop_conv_nth)
    finally have la: "last ((k, v) # ?xs) = done ! (?n - ?c)" .
    obtain k0 v0 where k0: "done ! (?n - ?c) = (k0, v0)" by (cases "done ! (?n - ?c)")
    have "outside hp' = outside (fire lru k0 v0 hp)" using E full la k0 by auto
    also have "\<dots> = f k0 v0 (outside hp)" using M(2) by (simp add: fire_def)
    also have "outside hp = foldl ?g h0 (take (?n - ?c) done)" using Cons.prems(6) st by simp
    also have "f k0 v0 (foldl ?g h0 (take (?n - ?c) done)) =
        foldl ?g h0 (take (Suc (?n - ?c)) done)"
      using j k0 by (simp add: take_Suc_conv_app_nth)
    finally have o: "outside hp' = foldl ?g h0 (take (Suc (?n - ?c)) (done @ [kv]))"
      using j by simp
    show ?thesis unfolding S using E full b o by simp
  next
    case False
    then have notfull: "\<not> (MaxEntries lru \<noteq> 0 \<and> int (length ?xs) + 1 > MaxEntries lru)"
      using M(1) C len by auto
    have Z: "length (done @ [kv]) - ?c = 0" "?n - ?c = 0" using False by simp_all
    have "outside hp = h0" using Cons.prems(6) st Z by simp
    then show ?thesis unfolding Z using E notfull xs Z kv by simp
  qed
  have d: "distinct (map fst ((done @ [kv]) @ rest))" using Cons.prems(4) by simp
  from Cons.IH [of "(lru', hp')" "done @ [kv]"] A(2) A(3,4) M d post
  obtain st' where R: "runCalls (map (\<lambda>(k, v). CallAdd k v) rest) (lru', hp') = Inr st'"
    "lruInv st'"
    "contents st' = rev (drop (length ((done @ [kv]) @ rest) - ?c) ((done @ [kv]) @ rest))"
    "outside (snd st') =
       foldl ?g h0 (take (length ((done @ [kv]) @ rest) - ?c) ((done @ [kv]) @ rest))"
    by auto
  have "runCalls (map (\<lambda>(k, v). CallAdd k v) (kv # rest)) st = Inr st'"
    using A(1) R(1) st kv by simp
  then show ?case using R(2-4) by simp
qed

text \<open>
  C2. A new cache of capacity \<open>C > 0\<close> whose callback appends the key and the value it is
  called with to a log, and \<open>N\<close> calls of \<open>Add\<close> with keys that are all different:
  the calls run without a panic, and the log then holds the first \<open>N - C\<close> pairs added, in
  the order in which they were added; so the callback has been called \<open>N - C\<close> times when
  \<open>N > C\<close>. The cache is left with the last \<open>C\<close> pairs, the newest in front.
\<close>

theorem eviction_in_insertion_order:
  assumes "0 < C" and "distinct (map fst kvs)" and "C < int (length kvs)"
  shows "\<exists>lru' hp'.
           runCalls (map (\<lambda>(k, v). CallAdd k v) kvs)
             ((NewLru C)\<lparr>OnEvicted := Some (\<lambda>k v log. log @ [(k, v)])\<rparr>, hp\<lparr>outside := []\<rparr>)
             = Inr (lru', hp') \<and>
           outside hp' = take (length kvs - nat C) kvs \<and>
           length (outside hp') = length kvs - nat C \<and>
           contents (lru', hp') = rev (drop (length kvs - nat C) kvs)"
proof -
  let ?f = "\<lambda>(k :: 'a) (v :: 'b) log. log @ [(k, v)]"
  let ?st = "((NewLru C)\<lparr>OnEvicted := Some ?f\<rparr>, hp\<lparr>outside := []\<rparr>)"
  have "\<exists>st'. runCalls (map (\<lambda>(k, v). CallAdd k v) kvs) ?st = Inr st' \<and> lruInv st' \<and>
           contents st' = rev (drop (length ([] @ kvs) - nat C) ([] @ kvs)) \<and>
           outside (snd st') =
             foldl (\<lambda>h kv. ?f (fst kv) (snd kv) h) [] (take (length ([] @ kvs) - nat C) ([] @ kvs))"
    by (rule adds_run [OF assms(1)])
       (use assms(2) in \<open>simp_all add: lruInv_NewLru, simp_all add: NewLru_def contents_def\<close>)
  then obtain st' where R: "runCalls (map (\<lambda>(k, v). CallAdd k v) kvs) ?st = Inr st'"
    "contents st' = rev (drop (length kvs - nat C) kvs)"
    "outside (snd st') = foldl (\<lambda>h kv. h @ [kv]) [] (take (length kvs - nat C) kvs)"
    by auto
  have "outside (snd st') = take (length kvs - nat C) kvs"
    using R(3) by (simp add: foldl_snoc_log)
  then show ?thesis using R(1,2) by (cases st') simp
qed

theorem eviction_in_insertion_order_witness:
  "\<exists>lru' hp'.
     runCalls (map (\<lambda>(k, v). CallAdd k v) (map (\<lambda>i. (i, 2 * i)) [0 ..< 25]))
       ((NewLru 20)\<lparr>OnEvicted := Some (\<lambda>k v log. log @ [(k, v)])\<rparr>,
        \<lparr>entries = Map.empty, nextElem = 0, outside = []\<rparr>)
       = Inr (lru', hp') \<and>
     outside hp' = map (\<lambda>i. (i, 2 * i)) [0 ..< 5 :: nat] \<and>
     length (outside hp') = 5"
proof -
  have d: "distinct (map fst (map (\<lambda>i. (i, 2 * i)) [0 ..< 25 :: nat]))"
    by (simp add: comp_def)
  have n: "20 < int (length (map (\<lambda>i. (i, 2 * i)) [0 ..< 25 :: nat]))" by simp
  have z: "(0 :: int) < 20" by simp
  show ?thesis
    using eviction_in_insertion_order [OF z d n,
        of "\<lparr>entries = Map.empty, nextElem = 0, outside = []\<rparr>"]
    by (simp add: take_map, blast)
qed

subsection \<open>After \<open>Clear\<close>\<close>

lemma Clear_result:
  assumes "Clear order (lru, hp) = Inr (lru', hp')"
  shows "lru' = lru\<lparr>dll := None, cache := None\<rparr>"
  using assms by (auto simp: Clear_def split: sum.splits)

text \<open>
  C10. Take any state that calls on a new cache lead to, and call \<open>Clear\<close>. It returns, and
  on the state it leaves, \<open>Get\<close> finds nothing, \<open>Len\<close> is 0, \<open>Remove\<close> and \<open>RemoveOldest\<close>
  change nothing, and \<open>Add\<close> does what it does on a cache that \<open>NewLru\<close> has just made with
  the same \<open>MaxEntries\<close> and the same callback; whatever calls follow, none panics.
\<close>

theorem after_Clear:
  assumes "runCalls before ((NewLru C)\<lparr>OnEvicted := hook\<rparr>, hp) = Inr st"
  shows "\<exists>lru' hp'. Clear order st = Inr (lru', hp') \<and>
           Get_lru key (lru', hp') = Inr (None, (lru', hp')) \<and>
           Len_lru (lru', hp') = Inr 0 \<and>
           Remove_lru key (lru', hp') = Inr (lru', hp') \<and>
           RemoveOldest (lru', hp') = Inr (lru', hp') \<and>
           Add_lru key value (lru', hp') =
             Add_lru key value ((NewLru C)\<lparr>OnEvicted := hook\<rparr>, hp') \<and>
           (\<forall>cs. \<exists>st'. runCalls cs (lru', hp') = Inr st')"
proof -
  let ?st0 = "((NewLru C)\<lparr>OnEvicted := hook\<rparr>, hp)"
  have "\<exists>st'. runCalls before ?st0 = Inr st' \<and> lruInv st' \<and>
           MaxEntries (fst st') = C \<and> OnEvicted (fst st') = hook \<and>
           (0 < C \<longrightarrow> int (length (contents st')) \<le> C)"
    by (rule runCalls_inv) (simp_all add: lruInv_NewLru, simp_all add: NewLru_def contents_def)
  then have I: "lruInv st" "MaxEntries (fst st) = C" "OnEvicted (fst st) = hook"
    using assms by auto
  obtain lru h where st: "st = (lru, h)" by (cases st)
  let ?lru' = "lru\<lparr>dll := None, cache := None\<rparr>"
  from Clear_inv [OF I(1) [unfolded st], of order]
  obtain hp' where Cl: "Clear order (lru, h) = Inr (?lru', hp')" "lruInv (?lru', hp')"
    by blast
  have fresh: "?lru'\<lparr>cache := Some Map.empty, dll := Some []\<rparr> = (NewLru C)\<lparr>OnEvicted := hook\<rparr>"
    using I(2,3) st by (simp add: NewLru_def)
  have "Add_lru key value (?lru', hp') = Add_lru key value ((NewLru C)\<lparr>OnEvicted := hook\<rparr>, hp')"
    using Add_lru_nil [of ?lru' key "value" hp'] fresh by simp
  moreover have "\<exists>st'. runCalls cs (?lru', hp') = Inr st'" for cs
    using runCalls_inv [OF Cl(2) refl refl, of cs] by (auto simp: contents_def)
  ultimately show ?thesis
    using Cl(1) st
    by (auto simp: Get_lru_def Len_lru_def Remove_lru_def RemoveOldest_def)
qed

theorem after_Clear_witness:
  "\<exists>lru' hp'.
     runCalls [CallAdd (1 :: nat) ''a'', CallAdd 2 ''b'', CallClear [2, 1]]
       ((NewLru 2)\<lparr>OnEvicted := Some (\<lambda>k v log. log @ [(k, v)])\<rparr>,
        \<lparr>entries = Map.empty, nextElem = 0, outside = []\<rparr>) = Inr (lru', hp') \<and>
     outside hp' = [(2, ''b''), (1, ''a'')] \<and>
     Get_lru 1 (lru', hp') = Inr (None, (lru', hp')) \<and>
     Len_lru (lru', hp') = Inr 0 \<and>
     Remove_lru 1 (lru', hp') = Inr (lru', hp') \<and>
     RemoveOldest (lru', hp') = Inr (lru', hp') \<and>
     Add_lru 3 ''c'' (lru', hp') =
       Add_lru 3 ''c'' ((NewLru 2)\<lparr>OnEvicted := Some (\<lambda>k v log. log @ [(k, v)])\<rparr>, hp')"
proof -
  let ?f = "\<lambda>(k :: nat) (v :: string) log. log @ [(k, v)]"
  let ?hp = "\<lparr>entries = Map.empty :: elem \<rightharpoonup> nat \<times> string, nextElem = 0,
              outside = [] :: (nat \<times> string) list\<rparr>"
  let ?st0 = "((NewLru 2)\<lparr>OnEvicted := Some ?f\<rparr>, ?hp)"
  obtain st where b: "runCalls [CallAdd 1 ''a'', CallAdd 2 ''b''] ?st0 = Inr st"
    and o: "outside (snd st) = []" and c: "contents st = [(2, ''b''), (1, ''a'')]"
    by (simp add: Add_lru_def NewLru_def contents_def)
  from after_Clear [OF b, of "[2, 1]" 1 "''c''"]
  obtain lru' hp' where A: "Clear [2, 1] st = Inr (lru', hp')"
    "Get_lru 1 (lru', hp') = Inr (None, (lru', hp'))"
    "Len_lru (lru', hp') = Inr 0"
    "Remove_lru 1 (lru', hp') = Inr (lru', hp')"
    "RemoveOldest (lru', hp') = Inr (lru', hp')"
    by blast
  from after_Clear [OF b, of "[2, 1]" 3 "''c''"] A(1)
  have A6: "Add_lru 3 ''c'' (lru', hp') = Add_lru 3 ''c'' ((NewLru 2)\<lparr>OnEvicted := Some ?f\<rparr>, hp')"
    by auto
  have r: "runCalls [CallAdd 1 ''a'', CallAdd 2 ''b'', CallClear [2, 1]] ?st0 = Inr (lru', hp')"
    using b A(1) by (auto split: sum.splits)
  have "runCalls [CallAdd 1 ''a'', CallAdd 2 ''b'', CallClear [2, 1]] ?st0 = Inr (lru', hp') \<longrightarrow>
        outside hp' = [(2, ''b''), (1, ''a'')]"
    by (simp add: Add_lru_def NewLru_def Clear_def) auto
  then have "outside hp' = [(2, ''b''), (1, ''a'')]" using r by simp
  then show ?thesis using r A(2-5) A6 by blast
qed

section \<open>The order of the list is the order of use\<close>

lemma lastUseFrom_le: "lastUseFrom t cs k \<le> t + length cs"
proof (induction cs arbitrary: t)
  case Nil
  show ?case by simp
next
  case (Cons c cs)
  show ?case using Cons [of "Suc t"] by simp
qed

lemma lastUseFrom_snoc:
  "lastUseFrom t (cs @ [c]) k = (if uses c k then Suc (t + length cs) else lastUseFrom t cs k)"
  by (induction cs arbitrary: t) simp_all

lemma lastUse_le: "lastUse cs k \<le> length cs"
  using lastUseFrom_le [of 0 cs k] by (simp add: lastUse_def)

lemma lastUse_snoc:
  "lastUse (cs @ [c]) k = (if uses c k then Suc (length cs) else lastUse cs k)"
  by (simp add: lastUse_def lastUseFrom_snoc)

lemma runCalls_append:
  "runCalls (cs @ ds) st = (case runCalls cs st of Inl p \<Rightarrow> Inl p | Inr st' \<Rightarrow> runCalls ds st')"
  by (induction cs arbitrary: st) (auto split: sum.splits)

lemma map_remove1_inj_on:
  assumes "inj_on g (set l)" "e \<in> set l"
  shows "map g (remove1 e l) = remove1 (g e) (map g l)"
  using assms
proof (induction l)
  case Nil
  then show ?case by simp
next
  case (Cons a l)
  show ?case
  proof (cases "a = e")
    case True
    then show ?thesis by simp
  next
    case False
    then have e: "e \<in> set l" using Cons.prems(2) by simp
    have "g a \<noteq> g e" using Cons.prems False by (auto simp: inj_on_def)
    moreover have "inj_on g (set l)" using Cons.prems(1) by (simp add: inj_on_def)
    ultimately show ?thesis using Cons.IH e False by simp
  qed
qed

lemma linked_key_inj:
  assumes "linked m l hp"
  shows "inj_on (\<lambda>e. fst (the (entries hp e))) (set l)"
proof (rule inj_onI)
  fix a b assume a: "a \<in> set l" and b: "b \<in> set l"
    and eq: "fst (the (entries hp a)) = fst (the (entries hp b))"
  obtain ka va where ea: "entries hp a = Some (ka, va)"
    using assms a unfolding linked_def by blast
  obtain kb vb where eb: "entries hp b = Some (kb, vb)"
    using assms b unfolding linked_def by blast
  have "ka = kb" using eq ea eb by simp
  then show "a = b" using linked_key_unique [OF assms a b ea] eb by simp
qed

lemma cachedKeys_linked:
  "dll lru = Some l \<Longrightarrow> cachedKeys (lru, hp) = map (\<lambda>e. fst (the (entries hp e))) l"
  by (simp add: cachedKeys_def contents_def comp_def)

lemma cachedKeys_nil: "dll lru = None \<Longrightarrow> cachedKeys (lru, hp) = []"
  by (simp add: cachedKeys_def contents_def)

lemma distinct_cachedKeys:
  assumes "lruInv (lru, hp)"
  shows "distinct (cachedKeys (lru, hp))"
  using assms
proof (cases rule: lruInv_cases)
  case nil
  then show ?thesis by (simp add: cachedKeys_nil)
next
  case (linked m l)
  have "distinct l" using linked(3) by (simp add: linked_def)
  then show ?thesis
    using linked_key_inj [OF linked(3)] linked(2) by (simp add: cachedKeys_linked distinct_map)
qed

lemma keys_MoveToFront:
  assumes L: "linked m l hp" and e: "e \<in> set l" and ent: "entries hp e = Some (k, v)"
  shows "map (\<lambda>e. fst (the (entries hp e))) (MoveToFront e l) =
         k # remove1 k (map (\<lambda>e. fst (the (entries hp e))) l)"
  using map_remove1_inj_on [OF linked_key_inj [OF L] e] e ent
  by (simp add: MoveToFront_def)

lemma in_cachedKeys:
  assumes "linked m l hp" "dll lru = Some l"
  shows "k \<in> set (cachedKeys (lru, hp)) \<longleftrightarrow> m k \<noteq> None"
  using linked_keys [OF assms(1)] assms(2) by (auto simp: cachedKeys_def contents_def)

subsection \<open>What each operation does to the order of the keys\<close>

lemma Get_lru_keys:
  assumes inv: "lruInv (lru, hp)" and G: "Get_lru key (lru, hp) = Inr (r, st')"
  shows "cachedKeys st' =
         (if key \<in> set (cachedKeys (lru, hp)) then key # remove1 key (cachedKeys (lru, hp))
          else cachedKeys (lru, hp))"
  using inv
proof (cases rule: lruInv_cases)
  case nil
  then show ?thesis using G by (auto simp: Get_lru_def cachedKeys_nil)
next
  case (linked m l)
  note mem = in_cachedKeys [OF linked(3,2), of key]
  show ?thesis
  proof (cases "m key")
    case None
    then show ?thesis using G linked mem by (auto simp: Get_lru_def)
  next
    case (Some e)
    then obtain v where ent: "entries hp e = Some (key, v)" and e: "e \<in> set l"
      using linked(3) unfolding linked_def by blast
    have "st' = (lru\<lparr>dll := Some (MoveToFront e l)\<rparr>, hp)"
      using G linked Some ent by (simp add: Get_lru_def)
    then show ?thesis
      using keys_MoveToFront [OF linked(3) e ent] linked(2) Some mem
      by (simp add: cachedKeys_linked)
  qed
qed

lemma Add_lru_keys:
  assumes inv: "lruInv (lru, hp)" and A: "Add_lru key value (lru, hp) = Inr st'"
  shows "cachedKeys st' =
         (if key \<in> set (cachedKeys (lru, hp)) then key # remove1 key (cachedKeys (lru, hp))
          else if MaxEntries lru \<noteq> 0 \<and> int (length (cachedKeys (lru, hp))) + 1 > MaxEntries lru
          then butlast (key # cachedKeys (lru, hp))
          else key # cachedKeys (lru, hp))"
proof (cases "key \<in> set (cachedKeys (lru, hp))")
  case False
  then have new: "key \<notin> fst ` set (contents (lru, hp))" by (simp add: cachedKeys_def)
  from Add_new [OF inv new, of "value"] A
  have "if MaxEntries lru \<noteq> 0 \<and> int (length (contents (lru, hp))) + 1 > MaxEntries lru
        then contents st' = butlast ((key, value) # contents (lru, hp))
        else contents st' = (key, value) # contents (lru, hp)"
    by (auto split: if_splits)
  then show ?thesis using False by (auto simp: cachedKeys_def map_butlast split: if_splits)
next
  case True
  from inv show ?thesis
  proof (cases rule: lruInv_cases)
    case nil
    then show ?thesis using True by (simp add: cachedKeys_nil)
  next
    case (linked m l)
    from True obtain e where Some: "m key = Some e"
      using in_cachedKeys [OF linked(3,2), of key] by auto
    then obtain v0 where ent: "entries hp e = Some (key, v0)" and e: "e \<in> set l"
      using linked(3) unfolding linked_def by blast
    let ?hp' = "hp\<lparr>entries := (entries hp)(e \<mapsto> (key, value))\<rparr>"
    have st': "st' = (lru\<lparr>dll := Some (MoveToFront e l)\<rparr>, ?hp')"
      using A linked Some ent by (simp add: Add_lru_def)
    have same: "(\<lambda>a. fst (the (entries ?hp' a))) = (\<lambda>a. fst (the (entries hp a)))"
      using ent by (intro ext) simp
    have "cachedKeys st' = map (\<lambda>a. fst (the (entries ?hp' a))) (MoveToFront e l)"
      unfolding st' by (rule cachedKeys_linked) simp
    also have "\<dots> = map (\<lambda>a. fst (the (entries hp a))) (MoveToFront e l)"
      by (simp only: same)
    also have "\<dots> = key # remove1 key (cachedKeys (lru, hp))"
      using keys_MoveToFront [OF linked(3) e ent] linked(2) by (simp add: cachedKeys_linked)
    finally show ?thesis using True by simp
  qed
qed

lemma Remove_lru_keys:
  assumes inv: "lruInv (lru, hp)" and R: "Remove_lru key (lru, hp) = Inr st'"
  shows "cachedKeys st' = remove1 key (cachedKeys (lru, hp))"
  using inv
proof (cases rule: lruInv_cases)
  case nil
  then show ?thesis using R by (auto simp: Remove_lru_def cachedKeys_nil)
next
  case (linked m l)
  note mem = in_cachedKeys [OF linked(3,2), of key]
  show ?thesis
  proof (cases "m key")
    case None
    then have "key \<notin> set (cachedKeys (lru, hp))" using mem by simp
    then show ?thesis using R linked None by (auto simp: Remove_lru_def remove1_idem)
  next
    case (Some e)
    then obtain v where ent: "entries hp e = Some (key, v)" and e: "e \<in> set l"
      using linked(3) unfolding linked_def by blast
    from removeElement_linked [OF linked e] ent
    have "removeElement e (lru, hp) =
        Inr (lru\<lparr>dll := Some (remove1 e l), cache := Some (m(key := None))\<rparr>, fire lru key v hp)"
      by auto
    then have "st' = (lru\<lparr>dll := Some (remove1 e l), cache := Some (m(key := None))\<rparr>,
                     fire lru key v hp)"
      using R linked Some by (simp add: Remove_lru_def)
    then show ?thesis
      using map_remove1_inj_on [OF linked_key_inj [OF linked(3)] e] ent linked(2)
      by (simp add: cachedKeys_linked)
  qed
qed

lemma RemoveOldest_keys:
  assumes inv: "lruInv (lru, hp)" and R: "RemoveOldest (lru, hp) = Inr st'"
  shows "cachedKeys st' = butlast (cachedKeys (lru, hp))"
  using inv
proof (cases rule: lruInv_cases)
  case nil
  then show ?thesis using R by (auto simp: RemoveOldest_def cachedKeys_nil)
next
  case (linked m l)
  show ?thesis
  proof (cases "l = []")
    case True
    then show ?thesis using R linked by (auto simp: RemoveOldest_def cachedKeys_linked)
  next
    case False
    from RemoveOldest_linked [OF linked False] R
    have "contents st' = butlast (contents (lru, hp))" by auto
    then show ?thesis by (simp add: cachedKeys_def map_butlast)
  qed
qed

lemma Clear_keys:
  assumes "Clear order (lru, hp) = Inr st'"
  shows "cachedKeys st' = []"
  using assms by (auto simp: Clear_def cachedKeys_def contents_def split: sum.splits)

subsection \<open>The keys stay in the order of their last use\<close>

lemma sorted_wrt_butlast:
  assumes "sorted_wrt P xs"
  shows "sorted_wrt P (butlast xs)"
proof (cases "xs = []")
  case True
  then show ?thesis by simp
next
  case False
  then have "xs = butlast xs @ [last xs]" by simp
  then have "sorted_wrt P (butlast xs @ [last xs])" using assms by simp
  then show ?thesis by (simp add: sorted_wrt_append)
qed

lemma sorted_wrt_remove1:
  assumes "sorted_wrt P xs"
  shows "sorted_wrt P (remove1 x xs)"
  using assms
proof (induction xs)
  case Nil
  then show ?case by simp
next
  case (Cons a xs)
  then show ?case by (auto dest: notin_set_remove1)
qed

lemma recent_front:
  fixes T :: "'k \<Rightarrow> nat"
  assumes s: "sorted_wrt (\<lambda>a b. T b < T a) xs" and b: "\<forall>x. T x \<le> n" and k: "k \<notin> set xs"
  shows "sorted_wrt (\<lambda>a b. (if b = k then Suc n else T b) < (if a = k then Suc n else T a))
           (k # xs)"
proof -
  have "sorted_wrt (\<lambda>a b. (if b = k then Suc n else T b) < (if a = k then Suc n else T a)) xs"
    by (rule sorted_wrt_mono_rel [OF _ s]) (use k in auto)
  moreover have "\<forall>x\<in>set xs. (if x = k then Suc n else T x) < Suc n"
    using b k by (auto simp: less_Suc_eq_le)
  ultimately show ?thesis by simp
qed

lemma recent_rest:
  fixes T :: "'k \<Rightarrow> nat"
  assumes s: "sorted_wrt (\<lambda>a b. T b < T a) xs" and k: "k \<notin> set xs"
  shows "sorted_wrt (\<lambda>a b. (if b = k then Suc n else T b) < (if a = k then Suc n else T a)) xs"
  by (rule sorted_wrt_mono_rel [OF _ s]) (use k in auto)

lemma runCall_order:
  assumes inv: "lruInv st" and run: "runCall c st = Inr st'"
    and s: "sorted_wrt (\<lambda>a b. lastUse cs b < lastUse cs a) (cachedKeys st)"
  shows "sorted_wrt (\<lambda>a b. lastUse (cs @ [c]) b < lastUse (cs @ [c]) a) (cachedKeys st')"
proof -
  obtain lru hp where st: "st = (lru, hp)" by (cases st)
  let ?ks = "cachedKeys (lru, hp)"
  let ?T = "lastUse cs" and ?n = "length cs"
  note inv' = inv [unfolded st]
  have d: "distinct ?ks" by (rule distinct_cachedKeys [OF inv'])
  have s': "sorted_wrt (\<lambda>a b. ?T b < ?T a) ?ks" using s st by simp
  have b: "\<forall>x. ?T x \<le> ?n" by (simp add: lastUse_le)
  have unused: "sorted_wrt (\<lambda>a b. lastUse (cs @ [c]) b < lastUse (cs @ [c]) a) xs"
    if "sorted_wrt (\<lambda>a b. ?T b < ?T a) xs" "\<forall>x. \<not> uses c x" for xs
    using that by (simp add: lastUse_snoc)
  have used: "sorted_wrt (\<lambda>a b. lastUse (cs @ [c]) b < lastUse (cs @ [c]) a) xs"
    if "sorted_wrt (\<lambda>a b. (if b = k then Suc ?n else ?T b) < (if a = k then Suc ?n else ?T a)) xs"
      "\<forall>x. uses c x \<longleftrightarrow> x = k" for xs k
    using that by (simp add: lastUse_snoc)
  have move: "sorted_wrt (\<lambda>a b. lastUse (cs @ [c]) b < lastUse (cs @ [c]) a)
                (if k \<in> set ?ks then k # remove1 k ?ks else ?ks)"
    if u: "\<forall>x. uses c x \<longleftrightarrow> x = k" for k
  proof (cases "k \<in> set ?ks")
    case True
    have "k \<notin> set (remove1 k ?ks)" using d by simp
    from used [OF recent_front [OF sorted_wrt_remove1 [OF s'] b this] u]
    show ?thesis using True by simp
  next
    case False
    from used [OF recent_rest [OF s' False] u] show ?thesis using False by simp
  qed
  show ?thesis
  proof (cases c)
    case (CallAdd k v)
    have u: "\<forall>x. uses c x \<longleftrightarrow> x = k" using CallAdd by auto
    have A: "Add_lru k v (lru, hp) = Inr st'" using run st CallAdd by simp
    note K = Add_lru_keys [OF inv' A]
    show ?thesis
    proof (cases "k \<in> set ?ks")
      case True
      then show ?thesis using move [OF u] K by simp
    next
      case False
      have front: "sorted_wrt (\<lambda>a b. lastUse (cs @ [c]) b < lastUse (cs @ [c]) a) (k # ?ks)"
        by (rule used [OF recent_front [OF s' b False] u])
      then have "sorted_wrt (\<lambda>a b. lastUse (cs @ [c]) b < lastUse (cs @ [c]) a)
                   (butlast (k # ?ks))"
        by (rule sorted_wrt_butlast)
      then show ?thesis using front K False by (simp split: if_splits)
    qed
  next
    case (CallGet k)
    have u: "\<forall>x. uses c x \<longleftrightarrow> x = k" using CallGet by auto
    obtain r where "Get_lru k (lru, hp) = Inr (r, st')"
      using run st CallGet by (auto split: sum.splits)
    from Get_lru_keys [OF inv' this] show ?thesis using move [OF u] by simp
  next
    case (CallRemove k)
    have "Remove_lru k (lru, hp) = Inr st'" using run st CallRemove by simp
    from Remove_lru_keys [OF inv' this] show ?thesis
      using unused [OF sorted_wrt_remove1 [OF s']] CallRemove by simp
  next
    case CallRemoveOldest
    have "RemoveOldest (lru, hp) = Inr st'" using run st CallRemoveOldest by simp
    from RemoveOldest_keys [OF inv' this] show ?thesis
      using unused [OF sorted_wrt_butlast [OF s']] CallRemoveOldest by simp
  next
    case (CallClear order)
    have "Clear order (lru, hp) = Inr st'" using run st CallClear by simp
    from Clear_keys [OF this] show ?thesis by simp
  qed
qed

lemma runCalls_order:
  assumes "lruInv st0" and "cachedKeys st0 = []"
    and "MaxEntries (fst st0) = C" and "OnEvicted (fst st0) = hook"
  shows "\<exists>st. runCalls cs st0 = Inr st \<and> lruInv st \<and>
           MaxEntries (fst st) = C \<and> OnEvicted (fst st) = hook \<and>
           (0 < C \<longrightarrow> int (length (contents st)) \<le> C) \<and>
           sorted_wrt (\<lambda>a b. lastUse cs b < lastUse cs a) (cachedKeys st)"
proof (induction cs rule: rev_induct)
  case Nil
  show ?case using assms by (simp add: cachedKeys_def)
next
  case (snoc c cs)
  then obtain st where I: "runCalls cs st0 = Inr st" "lruInv st"
    "MaxEntries (fst st) = C" "OnEvicted (fst st) = hook"
    "0 < C \<longrightarrow> int (length (contents st)) \<le> C"
    "sorted_wrt (\<lambda>a b. lastUse cs b < lastUse cs a) (cachedKeys st)"
    by blast
  from runCall_inv [OF I(2), of c]
  obtain st' where s: "runCall c st = Inr st'" "lruInv st'"
    and f: "MaxEntries (fst st') = MaxEntries (fst st)" "OnEvicted (fst st') = OnEvicted (fst st)"
    and bd: "0 < MaxEntries (fst st) \<and> int (length (contents st)) \<le> MaxEntries (fst st) \<longrightarrow>
              int (length (contents st')) \<le> MaxEntries (fst st)"
    by blast
  have "runCalls (cs @ [c]) st0 = Inr st'" using I(1) s(1) by (simp add: runCalls_append)
  moreover have "0 < C \<longrightarrow> int (length (contents st')) \<le> C" using bd I(3,5) by simp
  moreover note runCall_order [OF I(2) s(1) I(6)]
  ultimately show ?case using s(2) f I(3,4) by auto
qed

subsection \<open>The size of the cache and the entry that \<open>Add\<close> evicts\<close>

lemma sorted_wrt_last_least:
  fixes T :: "'k \<Rightarrow> nat"
  assumes s: "sorted_wrt (\<lambda>a b. T b < T a) xs" and x: "x \<in> set xs" and ne: "x \<noteq> last xs"
  shows "T (last xs) < T x"
proof -
  have nonempty: "xs \<noteq> []" using x by auto
  then have split: "xs = butlast xs @ [last xs]" by simp
  then have "sorted_wrt (\<lambda>a b. T b < T a) (butlast xs @ [last xs])" using s by simp
  then have "\<forall>y\<in>set (butlast xs). T (last xs) < T y" by (simp add: sorted_wrt_append)
  moreover have "x \<in> set (butlast xs)"
    using x ne split by (metis Un_iff empty_iff empty_set insert_iff list.simps(15) set_append)
  ultimately show ?thesis by blast
qed

text \<open>
  C7. Take a cache made by \<open>NewLru\<close> with \<open>MaxEntries = C > 0\<close>, with any callback, and run
  any calls \<open>cs\<close> of \<open>Add\<close>, \<open>Get\<close>, \<open>Remove\<close>, \<open>RemoveOldest\<close> and \<open>Clear\<close> on it. No call
  panics, and after the last one, so after every one, \<open>Len\<close> returns the number of entries
  and that number is at most \<open>C\<close>. The keys stand in the list in the order of their last use
  by \<open>Add\<close> or \<open>Get\<close>, the most recently used in front. When the cache holds \<open>C\<close> entries,
  \<open>Add\<close> with a key that is not in the cache puts the new entry in front, drops the entry at
  the back of the list and calls the callback on it; and every other key of the cache has
  been used later than the key of the entry dropped, which is thus the least recently used
  one.
\<close>

theorem Len_at_most_MaxEntries:
  assumes "0 < C"
  shows "\<exists>st. runCalls cs ((NewLru C)\<lparr>OnEvicted := hook\<rparr>, hp) = Inr st \<and>
           Len_lru st = Inr (int (length (contents st))) \<and>
           int (length (contents st)) \<le> C \<and>
           sorted_wrt (\<lambda>a b. lastUse cs b < lastUse cs a) (cachedKeys st) \<and>
           (\<forall>k v. int (length (contents st)) = C \<and> k \<notin> set (cachedKeys st) \<longrightarrow>
              (\<exists>st'. Add_lru k v st = Inr st' \<and>
                 contents st' = (k, v) # butlast (contents st) \<and>
                 outside (snd st') =
                   outside (fire (fst st) (fst (last (contents st))) (snd (last (contents st)))
                              (snd st)) \<and>
                 (\<forall>k'\<in>set (cachedKeys st). k' \<noteq> fst (last (contents st)) \<longrightarrow>
                    lastUse cs (fst (last (contents st))) < lastUse cs k')))"
proof -
  let ?st0 = "((NewLru C)\<lparr>OnEvicted := hook\<rparr>, hp)"
  have "\<exists>st. runCalls cs ?st0 = Inr st \<and> lruInv st \<and>
           MaxEntries (fst st) = C \<and> OnEvicted (fst st) = hook \<and>
           (0 < C \<longrightarrow> int (length (contents st)) \<le> C) \<and>
           sorted_wrt (\<lambda>a b. lastUse cs b < lastUse cs a) (cachedKeys st)"
    by (rule runCalls_order)
       (simp_all add: lruInv_NewLru, simp_all add: NewLru_def contents_def cachedKeys_def)
  then obtain st where R: "runCalls cs ?st0 = Inr st" "lruInv st" "MaxEntries (fst st) = C"
    "int (length (contents st)) \<le> C"
    and S: "sorted_wrt (\<lambda>a b. lastUse cs b < lastUse cs a) (cachedKeys st)"
    using assms by auto
  obtain lru h where st: "st = (lru, h)" by (cases st)
  have evict: "\<exists>st'. Add_lru k v st = Inr st' \<and>
                 contents st' = (k, v) # butlast (contents st) \<and>
                 outside (snd st') =
                   outside (fire (fst st) (fst (last (contents st))) (snd (last (contents st)))
                              (snd st)) \<and>
                 (\<forall>k'\<in>set (cachedKeys st). k' \<noteq> fst (last (contents st)) \<longrightarrow>
                    lastUse cs (fst (last (contents st))) < lastUse cs k')"
    if full: "int (length (contents st)) = C" and new': "k \<notin> set (cachedKeys st)" for k v
  proof -
    have new: "k \<notin> fst ` set (contents st)" using new' by (simp add: cachedKeys_def)
    have ne: "contents st \<noteq> []" using full assms by auto
    have cond: "MaxEntries lru \<noteq> 0 \<and> int (length (contents (lru, h))) + 1 > MaxEntries lru"
      using R(3) full assms st by simp
    from Add_new [OF R(2) [unfolded st] new [unfolded st], of v] cond
    obtain lru' h' k0 v0 where A: "Add_lru k v (lru, h) = Inr (lru', h')"
      "contents (lru', h') = butlast ((k, v) # contents (lru, h))"
      "last ((k, v) # contents (lru, h)) = (k0, v0)" "outside h' = outside (fire lru k0 v0 h)"
      by auto
    have la: "last (contents st) = (k0, v0)" using A(3) ne st by simp
    have lk: "last (cachedKeys st) = fst (last (contents st))"
      using ne by (simp add: cachedKeys_def last_map)
    have "\<forall>k'\<in>set (cachedKeys st). k' \<noteq> fst (last (contents st)) \<longrightarrow>
            lastUse cs (fst (last (contents st))) < lastUse cs k'"
      using sorted_wrt_last_least [OF S] lk by auto
    then show ?thesis using A(1,2,4) la ne st by simp
  qed
  show ?thesis
    using R(1,4) S Len_lru_contents [OF R(2)] evict by blast
qed

theorem Len_at_most_MaxEntries_witness:
  "\<exists>st st'.
     runCalls [CallAdd (1 :: nat) ''a'', CallAdd 2 ''b'', CallGet 1]
       ((NewLru 2)\<lparr>OnEvicted := Some (\<lambda>k v log. log @ [(k, v)])\<rparr>,
        \<lparr>entries = Map.empty, nextElem = 0, outside = []\<rparr>) = Inr st \<and>
     Len_lru st = Inr 2 \<and>
     contents st = [(1, ''a''), (2, ''b'')] \<and>
     lastUse [CallAdd (1 :: nat) ''a'', CallAdd 2 ''b'', CallGet 1] 2 = 2 \<and>
     lastUse [CallAdd (1 :: nat) ''a'', CallAdd 2 ''b'', CallGet 1] 1 = 3 \<and>
     Add_lru 3 ''c'' st = Inr st' \<and>
     contents st' = [(3, ''c''), (1, ''a'')] \<and>
     outside (snd st') = [(2, ''b'')]"
proof -
  let ?f = "\<lambda>(k :: nat) (v :: string) log. log @ [(k, v)]"
  let ?hp = "\<lparr>entries = Map.empty :: elem \<rightharpoonup> nat \<times> string, nextElem = 0,
              outside = [] :: (nat \<times> string) list\<rparr>"
  let ?st0 = "((NewLru 2)\<lparr>OnEvicted := Some ?f\<rparr>, ?hp)"
  let ?cs = "[CallAdd (1 :: nat) ''a'', CallAdd 2 ''b'', CallGet 1]"
  obtain st where b: "runCalls ?cs ?st0 = Inr st"
    and o: "outside (snd st) = []" "OnEvicted (fst st) = Some ?f"
    and c: "contents st = [(1, ''a''), (2, ''b'')]"
    by (simp add: Add_lru_def Get_lru_def MoveToFront_def NewLru_def contents_def)
  have u: "lastUse ?cs 2 = 2" "lastUse ?cs 1 = 3" by (simp_all add: lastUse_def)
  have z: "(0 :: int) < 2" by simp
  from Len_at_most_MaxEntries [OF z, of ?cs "Some ?f" ?hp] b
  have L: "Len_lru st = Inr (int (length (contents st)))"
    and E: "\<forall>k v. int (length (contents st)) = 2 \<and> k \<notin> set (cachedKeys st) \<longrightarrow>
              (\<exists>st'. Add_lru k v st = Inr st' \<and>
                 contents st' = (k, v) # butlast (contents st) \<and>
                 outside (snd st') =
                   outside (fire (fst st) (fst (last (contents st))) (snd (last (contents st)))
                              (snd st)) \<and>
                 (\<forall>k'\<in>set (cachedKeys st). k' \<noteq> fst (last (contents st)) \<longrightarrow>
                    lastUse ?cs (fst (last (contents st))) < lastUse ?cs k'))"
    by auto
  have "int (length (contents st)) = 2 \<and> 3 \<notin> set (cachedKeys st)"
    using c by (simp add: cachedKeys_def)
  with E obtain st' where A: "Add_lru 3 ''c'' st = Inr st'"
    "contents st' = (3, ''c'') # butlast (contents st)"
    "outside (snd st') =
       outside (fire (fst st) (fst (last (contents st))) (snd (last (contents st))) (snd st))"
    by blast
  have "contents st' = [(3, ''c''), (1, ''a'')]" using A(2) c by simp
  moreover have "outside (snd st') = [(2, ''b'')]" using A(3) c o by (simp add: fire_def)
  moreover have "Len_lru st = Inr 2" using L c by simp
  ultimately show ?thesis using b c u A(1) by blast
qed

end
